theory Spec2Isabelle
  imports Complex_Main "HOL-Library.Sublist"
begin

section \<open>drag\_mouse.py: the motions parser and the single-hold executor\<close>

text \<open>
  The program reads a motions file line by line (\<^verbatim>\<open>parse_file\<close>) and replays the
  steps as one mouse drag (\<^verbatim>\<open>run_single_hold\<close>).  The model follows the source
  function by function.  Text is modelled over ASCII: a \<^typ>\<open>char\<close> is a code point
  below 128, and the character classes below are those of Python on that range.
\<close>

subsection \<open>Python strings\<close>

text \<open>\<^verbatim>\<open>str.isspace\<close> on ASCII: tab, LF, VT, FF, CR, the four separators
  0x1C..0x1F and the blank.  \<^verbatim>\<open>str.strip()\<close>, \<^verbatim>\<open>str.split()\<close> and the
  regular expression class \<^verbatim>\<open>\s\<close> all use this set.\<close>

definition isspace :: "char \<Rightarrow> bool" where
  "isspace c = (c \<in> set [CHR 0x09, CHR 0x0A, CHR 0x0B, CHR 0x0C, CHR 0x0D,
                          CHR 0x1C, CHR 0x1D, CHR 0x1E, CHR 0x1F, CHR '' ''])"

definition isdigit :: "char \<Rightarrow> bool" where
  "isdigit c = (c \<in> set ''0123456789'')"

definition upper :: "char \<Rightarrow> char" where
  "upper c = (case map_of (zip ''abcdefghijklmnopqrstuvwxyz'' ''ABCDEFGHIJKLMNOPQRSTUVWXYZ'') c of
                Some u \<Rightarrow> u | None \<Rightarrow> c)"

definition lower :: "char \<Rightarrow> char" where
  "lower c = (case map_of (zip ''ABCDEFGHIJKLMNOPQRSTUVWXYZ'' ''abcdefghijklmnopqrstuvwxyz'') c of
                Some l \<Rightarrow> l | None \<Rightarrow> c)"

text \<open>\<^verbatim>\<open>s.strip()\<close>: leading and trailing whitespace removed.\<close>

definition strip :: "string \<Rightarrow> string" where
  "strip s = rev (dropWhile isspace (rev (dropWhile isspace s)))"

text \<open>\<^verbatim>\<open>s.startswith(p)\<close>.\<close>

definition startswith :: "string \<Rightarrow> string \<Rightarrow> bool" where
  "startswith s p = (take (length p) s = p)"

text \<open>\<^verbatim>\<open>s.split()\<close>: the maximal runs of non-whitespace characters, in order.
  \<open>split_acc cur s\<close> carries the token being read.\<close>

fun split_acc :: "string \<Rightarrow> string \<Rightarrow> string list" where
  "split_acc cur [] = (if cur = [] then [] else [cur])"
| "split_acc cur (c # cs) =
     (if isspace c then (if cur = [] then split_acc [] cs else cur # split_acc [] cs)
      else split_acc (cur @ [c]) cs)"

definition split :: "string \<Rightarrow> string list" where
  "split s = split_acc [] s"

text \<open>\<^verbatim>\<open>str(n)\<close> for a non-negative integer, as the f-strings format \<^verbatim>\<open>idx\<close>.\<close>

definition digit_char :: "nat \<Rightarrow> char" where
  "digit_char d = ''0123456789'' ! d"

fun str_nat :: "nat \<Rightarrow> string" where
  "str_nat n = (if n < 10 then [digit_char n] else str_nat (n div 10) @ [digit_char (n mod 10)])"

subsection \<open>Python numbers from text\<close>

definition digit_val :: "char \<Rightarrow> nat" where
  "digit_val c = of_char c - 48"

text \<open>The value of a digit string, most significant digit first.\<close>

definition nat_of_digits :: "string \<Rightarrow> nat" where
  "nat_of_digits ds = foldl (\<lambda>acc c. 10 * acc + digit_val c) 0 ds"

text \<open>The grammar \<^verbatim>\<open>digitpart ::= digit (["_"] digit)*\<close> of \<^verbatim>\<open>int()\<close> and
  \<^verbatim>\<open>float()\<close>: \<open>digits_more\<close> reads what follows the first digit and returns the
  digits read (underscores dropped) and the rest of the text; \<open>digitpart\<close> reads an optional
  digit part (no digits read when the text does not start with a digit).\<close>

fun digits_more :: "string \<Rightarrow> string \<times> string" where
  "digits_more [] = ([], [])"
| "digits_more (c # cs) =
     (if isdigit c then (case digits_more cs of (ds, r) \<Rightarrow> (c # ds, r))
      else if c = CHR ''_'' then
        (case cs of
           [] \<Rightarrow> ([], c # cs)
         | d # cs' \<Rightarrow> if isdigit d then (case digits_more cs' of (ds, r) \<Rightarrow> (d # ds, r))
                      else ([], c # cs))
      else ([], c # cs))"

definition digitpart :: "string \<Rightarrow> string \<times> string" where
  "digitpart s = (case s of [] \<Rightarrow> ([], [])
                  | c # cs \<Rightarrow> if isdigit c then (case digits_more cs of (ds, r) \<Rightarrow> (c # ds, r))
                             else ([], s))"

text \<open>An optional sign: whether it is a minus, and the text after it.\<close>

definition opt_sign :: "string \<Rightarrow> bool \<times> string" where
  "opt_sign s = (case s of [] \<Rightarrow> (False, [])
                 | c # cs \<Rightarrow> if c = CHR ''-'' then (True, cs)
                            else if c = CHR ''+'' then (False, cs) else (False, s))"

text \<open>\<^verbatim>\<open>int(s)\<close> in base 10: surrounding whitespace, an optional sign, a digit part.
  \<open>None\<close> is Python's \<^verbatim>\<open>ValueError\<close>.  Python integers are unbounded; the
  interpreter's optional limit on the number of digits is not modelled.\<close>

definition py_int :: "string \<Rightarrow> int option" where
  "py_int s =
     (case opt_sign (strip s) of (neg, u) \<Rightarrow>
        (case digitpart u of (ds, r) \<Rightarrow>
           if ds = [] \<or> r \<noteq> [] then None
           else Some (if neg then - int (nat_of_digits ds) else int (nat_of_digits ds))))"

text \<open>A Python \<^verbatim>\<open>float\<close>.  \<open>Fin q\<close> stands for the binary64 number nearest to the
  rational \<open>q\<close>; the rounding of the significand and the sign of zero are not modelled, the
  overflow to infinity and the underflow to zero are.\<close>

datatype pyfloat = Fin rat | PInf | NInf | NaN

text \<open>Round-to-nearest carries every magnitude from \<open>2^1024 - 2^970\<close> on to infinity and
  every magnitude up to \<open>2^-1075\<close> to zero.\<close>

definition to_float :: "rat \<Rightarrow> pyfloat" where
  "to_float q =
     (if 2 ^ 1024 - 2 ^ 970 \<le> q then PInf
      else if q \<le> - (2 ^ 1024 - 2 ^ 970) then NInf
      else if \<bar>q\<bar> \<le> 1 / 2 ^ 1075 then Fin 0
      else Fin q)"

text \<open>\<open>m * 10^e\<close> for an integer exponent.\<close>

definition scale10 :: "nat \<Rightarrow> int \<Rightarrow> rat" where
  "scale10 m e = (if 0 \<le> e then of_nat m * 10 ^ nat e else of_nat m / 10 ^ nat (- e))"

text \<open>\<^verbatim>\<open>exponent ::= ("e" | "E") [sign] digitpart\<close>, optional, up to the end of the
  text: the exponent read, \<open>None\<close> when the text is not an exponent.\<close>

definition exponent :: "string \<Rightarrow> int option" where
  "exponent s =
     (case s of [] \<Rightarrow> Some 0
      | c # cs \<Rightarrow>
          if c = CHR ''e'' \<or> c = CHR ''E'' then
            (case opt_sign cs of (neg, u) \<Rightarrow>
               (case digitpart u of (ds, r) \<Rightarrow>
                  if ds = [] \<or> r \<noteq> [] then None
                  else Some (if neg then - int (nat_of_digits ds) else int (nat_of_digits ds))))
          else None)"

text \<open>\<^verbatim>\<open>floatnumber ::= number [exponent]\<close> with
  \<^verbatim>\<open>number ::= [digitpart] "." digitpart | digitpart ["."]\<close>.\<close>

definition floatnumber :: "string \<Rightarrow> rat option" where
  "floatnumber s =
     (case digitpart s of (ip, r1) \<Rightarrow>
        (case r1 of
           [] \<Rightarrow> if ip = [] then None else Some (scale10 (nat_of_digits ip) 0)
         | c # r2 \<Rightarrow>
             if c = CHR ''.'' then
               (case digitpart r2 of (fp, r3) \<Rightarrow>
                  if ip = [] \<and> fp = [] then None
                  else (case exponent r3 of None \<Rightarrow> None
                        | Some e \<Rightarrow> Some (scale10 (nat_of_digits (ip @ fp)) (e - int (length fp)))))
             else if ip = [] then None
             else (case exponent r1 of None \<Rightarrow> None
                   | Some e \<Rightarrow> Some (scale10 (nat_of_digits ip) e))))"

text \<open>\<^verbatim>\<open>float(s)\<close>: surrounding whitespace, an optional sign, then \<^verbatim>\<open>inf\<close>,
  \<^verbatim>\<open>infinity\<close> or \<^verbatim>\<open>nan\<close> in any letter case, or a decimal number.
  \<open>None\<close> is Python's \<^verbatim>\<open>ValueError\<close>.\<close>

definition py_float :: "string \<Rightarrow> pyfloat option" where
  "py_float s =
     (case opt_sign (strip s) of (neg, u) \<Rightarrow>
        if map lower u = ''inf'' \<or> map lower u = ''infinity'' then Some (if neg then NInf else PInf)
        else if map lower u = ''nan'' then Some NaN
        else (case floatnumber u of None \<Rightarrow> None
              | Some q \<Rightarrow> Some (to_float (if neg then - q else q))))"

subsection \<open>Regular expressions\<close>

text \<open>The fragment of \<^verbatim>\<open>re\<close> that \<^verbatim>\<open>drag_line_re\<close> uses: character sets with a
  quantifier, the anchors, capturing parentheses and an optional non-capturing group.\<close>

datatype cset = Space | Digit | Lit char | Range char char

fun in_cset :: "cset \<Rightarrow> char \<Rightarrow> bool" where
  "in_cset Space c = isspace c"
| "in_cset Digit c = isdigit c"
| "in_cset (Lit a) c = (c = a)"
| "in_cset (Range a b) c = ((of_char a :: nat) \<le> of_char c \<and> (of_char c :: nat) \<le> of_char b)"

datatype quant = One | ZeroOrOne | ZeroOrMore | OneOrMore

datatype rx =
    Atom cset quant
  | Bol
  | Eol
  | Open nat
  | Close nat
  | OptGroup "rx list"

text \<open>The matcher's state: where each open group started, and the text each closed group
  captured.\<close>

record mstate =
  starts :: "nat \<Rightarrow> string"
  groups :: "nat \<Rightarrow> string option"

definition mstate0 :: mstate where
  "mstate0 = \<lparr>starts = (\<lambda>n. []), groups = (\<lambda>n. None)\<rparr>"

fun rx_size :: "rx \<Rightarrow> nat" where
  "rx_size (OptGroup rs) = Suc (sum_list (map rx_size rs))"
| "rx_size r = 1"

text \<open>Backtracking match of a sequence of items against the rest of the input, as
  \<^verbatim>\<open>re\<close> does it: quantifiers are greedy, and the first way to match the whole
  sequence wins.  \<open>inp\<close> is the whole input (for \<^verbatim>\<open>^\<close>); \<^verbatim>\<open>$\<close> matches at the
  end and before a final newline.\<close>

function rmatch :: "string \<Rightarrow> rx list \<Rightarrow> string \<Rightarrow> mstate \<Rightarrow> mstate option" where
  "rmatch inp [] s m = Some m"
| "rmatch inp (Bol # rs) s m = (if s = inp then rmatch inp rs s m else None)"
| "rmatch inp (Eol # rs) s m = (if s = [] \<or> s = [CHR 0x0A] then rmatch inp rs s m else None)"
| "rmatch inp (Open n # rs) s m = rmatch inp rs s (m\<lparr>starts := (starts m)(n := s)\<rparr>)"
| "rmatch inp (Close n # rs) s m =
     rmatch inp rs s
       (m\<lparr>groups := (groups m)(n \<mapsto> take (length (starts m n) - length s) (starts m n))\<rparr>)"
| "rmatch inp (OptGroup g # rs) s m =
     (case rmatch inp (g @ rs) s m of Some m' \<Rightarrow> Some m' | None \<Rightarrow> rmatch inp rs s m)"
| "rmatch inp (Atom cs One # rs) [] m = None"
| "rmatch inp (Atom cs One # rs) (c # s) m = (if in_cset cs c then rmatch inp rs s m else None)"
| "rmatch inp (Atom cs ZeroOrOne # rs) [] m = rmatch inp rs [] m"
| "rmatch inp (Atom cs ZeroOrOne # rs) (c # s) m =
     (if in_cset cs c then
        (case rmatch inp rs s m of Some m' \<Rightarrow> Some m' | None \<Rightarrow> rmatch inp rs (c # s) m)
      else rmatch inp rs (c # s) m)"
| "rmatch inp (Atom cs ZeroOrMore # rs) [] m = rmatch inp rs [] m"
| "rmatch inp (Atom cs ZeroOrMore # rs) (c # s) m =
     (if in_cset cs c then
        (case rmatch inp (Atom cs ZeroOrMore # rs) s m of
           Some m' \<Rightarrow> Some m' | None \<Rightarrow> rmatch inp rs (c # s) m)
      else rmatch inp rs (c # s) m)"
| "rmatch inp (Atom cs OneOrMore # rs) [] m = None"
| "rmatch inp (Atom cs OneOrMore # rs) (c # s) m =
     (if in_cset cs c then rmatch inp (Atom cs ZeroOrMore # rs) s m else None)"
  by pat_completeness auto
termination
  by (relation "measures [\<lambda>(inp, rs, s, m). sum_list (map rx_size rs), \<lambda>(inp, rs, s, m). length s]")
     auto

text \<open>\<^verbatim>\<open>pattern.match(s)\<close>: the match anchored at the start of \<open>s\<close>; the result maps a
  group number to the captured text (\<open>None\<close> for a group that took no part).\<close>

definition re_match :: "rx list \<Rightarrow> string \<Rightarrow> (nat \<Rightarrow> string option) option" where
  "re_match p s = map_option groups (rmatch s p s mstate0)"

text \<open>Lines 46--48:
  \<^verbatim>\<open>^\s*(-?\d+)\s*,\s*(-?\d+)\s*->\s*(-?\d+)\s*,\s*(-?\d+)(?:\s*,\s*([0-9]*\.?[0-9]+))?\s*$\<close>\<close>

text \<open>\<open>int_group n\<close> is \<^verbatim>\<open>(-?\d+)\<close> as group \<open>n\<close>; \<open>dur_group\<close> is
  \<^verbatim>\<open>(?:\s*,\s*([0-9]*\.?[0-9]+))?\<close>.\<close>

definition int_group :: "nat \<Rightarrow> rx list" where
  "int_group n = [Open n, Atom (Lit CHR ''-'') ZeroOrOne, Atom Digit OneOrMore, Close n]"

definition dur_group :: rx where
  "dur_group =
     OptGroup [Atom Space ZeroOrMore, Atom (Lit CHR '','') One, Atom Space ZeroOrMore,
               Open 5, Atom (Range CHR ''0'' CHR ''9'') ZeroOrMore, Atom (Lit CHR ''.'') ZeroOrOne,
               Atom (Range CHR ''0'' CHR ''9'') OneOrMore, Close 5]"

definition drag_line_re :: "rx list" where
  "drag_line_re =
     [Bol, Atom Space ZeroOrMore] @ int_group 1 @
     [Atom Space ZeroOrMore, Atom (Lit CHR '','') One, Atom Space ZeroOrMore] @ int_group 2 @
     [Atom Space ZeroOrMore, Atom (Lit CHR ''-'') One, Atom (Lit CHR ''>'') One,
      Atom Space ZeroOrMore] @ int_group 3 @
     [Atom Space ZeroOrMore, Atom (Lit CHR '','') One, Atom Space ZeroOrMore] @ int_group 4 @
     [dur_group, Atom Space ZeroOrMore, Eol]"

subsection \<open>The parser\<close>

text \<open>A step is \<^verbatim>\<open>("DRAG", (x1, y1, x2, y2, dur))\<close> or \<^verbatim>\<open>("SLEEP", seconds)\<close>.\<close>

datatype step = Drag int int int int "pyfloat option" | Sleep pyfloat

datatype error = ValueError string | TypeError string

text \<open>The body of the loop of \<^verbatim>\<open>parse_file\<close> (lines 57--76) on the raw line \<open>raw\<close>
  numbered \<open>idx\<close>: an error raised, no step (\<^verbatim>\<open>continue\<close> on a blank or comment
  line), or the step appended.  The last two errors are those of \<^verbatim>\<open>int\<close> and
  \<^verbatim>\<open>float\<close> themselves.\<close>

definition parse_line :: "string \<Rightarrow> nat \<Rightarrow> string \<Rightarrow> error + step option" where
  "parse_line path idx raw =
     (let line = strip raw in
      if line = [] \<or> startswith line ''#'' then Inr None
      else if startswith (map upper line) ''SLEEP'' then
        (let parts = split line in
         if length parts \<noteq> 2 then
           Inl (ValueError (path @ '':'' @ str_nat idx @
                  '': SLEEP requires one numeric value (seconds). Got: '' @ line))
         else
           (case py_float (parts ! 1) of
              None \<Rightarrow> Inl (ValueError (path @ '':'' @ str_nat idx @
                              '': Invalid SLEEP seconds: '' @ parts ! 1))
            | Some seconds \<Rightarrow> Inr (Some (Sleep seconds))))
      else
        (case re_match drag_line_re line of
           None \<Rightarrow> Inl (ValueError (path @ '':'' @ str_nat idx @
                           '': Invalid line. Expected 'x1,y1 -> x2,y2[,duration]'. Got: '' @ line))
         | Some m \<Rightarrow>
             (case (m 1, m 2, m 3, m 4) of
                (Some a, Some b, Some c, Some d) \<Rightarrow>
                  (case (py_int a, py_int b, py_int c, py_int d) of
                     (Some x1, Some y1, Some x2, Some y2) \<Rightarrow>
                       (case m 5 of
                          None \<Rightarrow> Inr (Some (Drag x1 y1 x2 y2 None))
                        | Some dur_str \<Rightarrow>
                            (case py_float dur_str of
                               None \<Rightarrow> Inl (ValueError ''could not convert string to float'')
                             | Some dur \<Rightarrow> Inr (Some (Drag x1 y1 x2 y2 (Some dur)))))
                   | _ \<Rightarrow> Inl (ValueError ''invalid literal for int() with base 10''))
              | _ \<Rightarrow> Inl (TypeError ''int() argument must be a string''))))"

text \<open>The loop over the lines of the file, numbered from \<open>idx\<close>, appending to \<open>steps\<close>.\<close>

fun parse_lines :: "string \<Rightarrow> nat \<Rightarrow> step list \<Rightarrow> string list \<Rightarrow> error + step list" where
  "parse_lines path idx steps [] = Inr steps"
| "parse_lines path idx steps (raw # raws) =
     (case parse_line path idx raw of
        Inl e \<Rightarrow> Inl e
      | Inr None \<Rightarrow> parse_lines path (idx + 1) steps raws
      | Inr (Some st) \<Rightarrow> parse_lines path (idx + 1) (steps @ [st]) raws)"

text \<open>Iterating over a text file opened with universal newlines: each line keeps its
  terminator, and \<^verbatim>\<open>\r\n\<close> and \<^verbatim>\<open>\r\<close> are read as \<^verbatim>\<open>\n\<close>.\<close>

fun file_lines_acc :: "string \<Rightarrow> string \<Rightarrow> string list" where
  "file_lines_acc cur [] = (if cur = [] then [] else [cur])"
| "file_lines_acc cur (c # cs) =
     (if c = CHR 0x0A then (cur @ [CHR 0x0A]) # file_lines_acc [] cs
      else if c = CHR 0x0D then
        (case cs of
           [] \<Rightarrow> [cur @ [CHR 0x0A]]
         | d # ds \<Rightarrow> if d = CHR 0x0A then (cur @ [CHR 0x0A]) # file_lines_acc [] ds
                     else (cur @ [CHR 0x0A]) # file_lines_acc [] (d # ds))
      else file_lines_acc (cur @ [c]) cs)"

definition file_lines :: "string \<Rightarrow> string list" where
  "file_lines content = file_lines_acc [] content"

text \<open>\<^verbatim>\<open>parse_file\<close> on a readable file at \<open>path\<close> with the given content.\<close>

definition parse_file :: "string \<Rightarrow> string \<Rightarrow> error + step list" where
  "parse_file path content = parse_lines path 1 [] (file_lines content)"

subsection \<open>The executor\<close>

text \<open>What \<^verbatim>\<open>run_single_hold\<close> does to the outside world, in order: the lines it prints
  and the calls it makes to \<^verbatim>\<open>pyautogui\<close> and \<^verbatim>\<open>time.sleep\<close>.
  \<open>MoveTo x y d tw\<close> is \<^verbatim>\<open>pyautogui.moveTo(x, y, duration=d, tween=tw)\<close>, with
  \<open>None\<close> for a call that leaves the duration out.\<close>

datatype tween = Linear | EaseInOutQuad

datatype event =
    PrintNoDrag
  | PrintStart int int string
  | MoveTo int int "pyfloat option" tween
  | MouseDown string
  | PrintSleep pyfloat
  | TimeSleep pyfloat
  | PrintWarn int int int int
  | PrintMove nat int int int int pyfloat
  | PrintRelease
  | MouseUp string

text \<open>A call may raise: the failsafe of the backend, the user's interrupt, or an error of
  the call itself.  The environment says which calls raise: \<open>env n = Some e\<close> when the call
  recorded at position \<open>n\<close> of the trace raises \<open>e\<close>.  The fault points are the calls to
  \<^verbatim>\<open>pyautogui\<close> and \<^verbatim>\<open>time.sleep\<close>, and the print of the
  \<^verbatim>\<open>finally\<close> block (line 123), which stands between the exit of the loop and the
  release.  The other prints are not fault points of their own: an exception raised by one of
  them leaves the function the way an exception of the call that follows it does (the notice
  of line 83 is taken to return).\<close>

datatype exn = FailSafeException | KeyboardInterrupt | OtherException

type_synonym env = "nat \<Rightarrow> exn option"

definition call :: "env \<Rightarrow> event list \<Rightarrow> event \<Rightarrow> event list \<times> exn option" where
  "call env tr ev = (tr @ [ev], env (length tr))"

text \<open>Line 81: the payload of the first \<^verbatim>\<open>DRAG\<close> step.\<close>

fun first_drag :: "step list \<Rightarrow> (int \<times> int \<times> int \<times> int \<times> pyfloat option) option" where
  "first_drag [] = None"
| "first_drag (Drag x1 y1 x2 y2 dur # ss) = Some (x1, y1, x2, y2, dur)"
| "first_drag (Sleep seconds # ss) = first_drag ss"

text \<open>\<^verbatim>\<open>between_delay > 0\<close> on floats.\<close>

fun float_gt0 :: "pyfloat \<Rightarrow> bool" where
  "float_gt0 (Fin q) = (0 < q)"
| "float_gt0 PInf = True"
| "float_gt0 NInf = False"
| "float_gt0 NaN = False"

text \<open>The local variables of the loop, and the trace so far.\<close>

record lstate =
  current :: "int \<times> int"
  seg_index :: nat
  trace :: "event list"

text \<open>The body of the loop (lines 99--121) on one step: the state after it, and the
  exception that left it, if any.\<close>

fun exec_step :: "env \<Rightarrow> pyfloat \<Rightarrow> pyfloat \<Rightarrow> step \<Rightarrow> lstate \<Rightarrow> lstate \<times> exn option" where
  "exec_step env default_duration between_delay (Sleep seconds) st =
     (case call env (trace st @ [PrintSleep seconds]) (TimeSleep seconds) of
        (tr, r) \<Rightarrow> (st\<lparr>trace := tr\<rparr>, r))"
| "exec_step env default_duration between_delay (Drag sx sy ex ey dur) st =
     (let duration = (case dur of Some d \<Rightarrow> d | None \<Rightarrow> default_duration) in
      case (if (sx, sy) \<noteq> current st then
              call env (trace st @ [PrintWarn sx sy (fst (current st)) (snd (current st))])
                (MoveTo sx sy (Some (Fin 0)) Linear)
            else (trace st, None)) of
        (tr1, Some e) \<Rightarrow> (st\<lparr>trace := tr1\<rparr>, Some e)
      | (tr1, None) \<Rightarrow>
          (case call env (tr1 @ [PrintMove (seg_index st + 1) sx sy ex ey duration])
                  (MoveTo ex ey (Some duration) EaseInOutQuad) of
             (tr2, Some e) \<Rightarrow> (st\<lparr>seg_index := seg_index st + 1, trace := tr2\<rparr>, Some e)
           | (tr2, None) \<Rightarrow>
               if float_gt0 between_delay then
                 (case call env tr2 (TimeSleep between_delay) of
                    (tr3, r) \<Rightarrow>
                      (st\<lparr>current := (ex, ey), seg_index := seg_index st + 1, trace := tr3\<rparr>, r))
               else (st\<lparr>current := (ex, ey), seg_index := seg_index st + 1, trace := tr2\<rparr>, None)))"

text \<open>The loop of line 98: it stops at the first step that raises.\<close>

fun run_steps :: "env \<Rightarrow> pyfloat \<Rightarrow> pyfloat \<Rightarrow> step list \<Rightarrow> lstate \<Rightarrow> lstate \<times> exn option" where
  "run_steps env default_duration between_delay [] st = (st, None)"
| "run_steps env default_duration between_delay (s # ss) st =
     (case exec_step env default_duration between_delay s st of
        (st', Some e) \<Rightarrow> (st', Some e)
      | (st', None) \<Rightarrow> run_steps env default_duration between_delay ss st')"

text \<open>Lines 87--89.\<close>

definition button_of :: "string \<Rightarrow> string" where
  "button_of button =
     (let btn = map lower button in
      if btn \<in> set [''left'', ''right'', ''middle''] then btn else ''left'')"

datatype outcome = Returned | Raised exn

text \<open>\<^verbatim>\<open>run_single_hold\<close>: the trace of the run and how the function was left.  The
  move to the start and the press (lines 92--93) come before the \<^verbatim>\<open>try\<close>; the
  \<^verbatim>\<open>finally\<close> block (lines 123--124) runs after the loop however the loop ended: its
  print first, and the release only when that print has returned; an exception raised in the
  block replaces the one of the loop.\<close>

definition run_single_hold ::
  "env \<Rightarrow> step list \<Rightarrow> pyfloat \<Rightarrow> string \<Rightarrow> pyfloat \<Rightarrow> event list \<times> outcome" where
  "run_single_hold env steps default_duration button between_delay =
     (case first_drag steps of
        None \<Rightarrow> ([PrintNoDrag], Returned)
      | Some (x1, y1, x2, y2, dur) \<Rightarrow>
          (let btn = button_of button in
           case call env [PrintStart x1 y1 btn] (MoveTo x1 y1 None Linear) of
             (tr1, Some e) \<Rightarrow> (tr1, Raised e)
           | (tr1, None) \<Rightarrow>
               (case call env tr1 (MouseDown btn) of
                  (tr2, Some e) \<Rightarrow> (tr2, Raised e)
                | (tr2, None) \<Rightarrow>
                    (case run_steps env default_duration between_delay steps
                            \<lparr>current = (x1, y1), seg_index = 0, trace = tr2\<rparr> of
                       (st, r) \<Rightarrow>
                         (case call env (trace st) PrintRelease of
                            (tr3, Some e) \<Rightarrow> (tr3, Raised e)
                          | (tr3, None) \<Rightarrow>
                              (case call env tr3 (MouseUp btn) of
                                 (tr4, Some e) \<Rightarrow> (tr4, Raised e)
                               | (tr4, None) \<Rightarrow>
                                   (tr4, case r of None \<Rightarrow> Returned | Some e \<Rightarrow> Raised e)))))))"

subsection \<open>Notions used in the statements\<close>

text \<open>An environment in which no call raises, and one in which only the call at position
  \<open>n\<close> does.\<close>

definition no_faults :: env where
  "no_faults = (\<lambda>n. None)"

definition fault_at :: "nat \<Rightarrow> exn \<Rightarrow> env" where
  "fault_at n e = no_faults(n := Some e)"

fun is_drag :: "step \<Rightarrow> bool" where
  "is_drag (Drag x1 y1 x2 y2 dur) = True"
| "is_drag (Sleep seconds) = False"

text \<open>The press and the release of the button, the warning of line 110, and the
  instantaneous move of line 112.\<close>

fun is_press :: "event \<Rightarrow> bool" where
  "is_press (MouseDown b) = True"
| "is_press ev = False"

fun is_release :: "event \<Rightarrow> bool" where
  "is_release (MouseUp b) = True"
| "is_release ev = False"





text \<open>An event that presses or releases the button.\<close>

definition button_event :: "event \<Rightarrow> bool" where
  "button_event ev = (is_press ev \<or> is_release ev)"

subsection \<open>The grammar of a drag line\<close>

text \<open>The grammar of the file format, stated on its own, to be compared with what
  \<^verbatim>\<open>drag_line_re\<close>, \<^verbatim>\<open>int\<close> and \<^verbatim>\<open>float\<close> make of a line.  An integer
  literal is an optional minus sign and one or more digits; a duration literal is one or more
  digits, optionally followed by a point and one or more digits, or a point and one or more
  digits alone.  Their values are the decimal ones.\<close>

definition int_lit :: "string \<Rightarrow> bool" where
  "int_lit s = (case s of [] \<Rightarrow> False
                | c # ds \<Rightarrow> if c = CHR ''-'' then ds \<noteq> [] \<and> list_all isdigit ds
                           else list_all isdigit s)"

definition int_value :: "string \<Rightarrow> int" where
  "int_value s = (case s of [] \<Rightarrow> 0
                  | c # ds \<Rightarrow> if c = CHR ''-'' then - int (nat_of_digits ds)
                             else int (nat_of_digits s))"

definition real_lit :: "string \<Rightarrow> bool" where
  "real_lit s = (case dropWhile isdigit s of [] \<Rightarrow> s \<noteq> []
                 | c # b \<Rightarrow> c = CHR ''.'' \<and> b \<noteq> [] \<and> list_all isdigit b)"

definition real_value :: "string \<Rightarrow> rat" where
  "real_value s = (let a = takeWhile isdigit s; b = drop 1 (dropWhile isdigit s)
                   in of_nat (nat_of_digits (a @ b)) / 10 ^ length b)"

text \<open>A drag line is \<^verbatim>\<open>a , b -> c , d\<close> with an optional \<^verbatim>\<open>, dur\<close>, where white
  space may stand on either side of the commas and of the arrow, and around the line.\<close>

definition drag_core :: "string \<Rightarrow> string \<Rightarrow> string \<Rightarrow> string \<Rightarrow> string \<Rightarrow> string option \<Rightarrow> bool" where
  "drag_core s a b c d dur \<longleftrightarrow>
     int_lit a \<and> int_lit b \<and> int_lit c \<and> int_lit d \<and>
     (\<exists>w1 w2 w3 w4 w5 w6 t.
        list_all isspace (w1 @ w2 @ w3 @ w4 @ w5 @ w6) \<and>
        s = a @ w1 @ '','' @ w2 @ b @ w3 @ ''->'' @ w4 @ c @ w5 @ '','' @ w6 @ d @ t \<and>
        (case dur of
           None \<Rightarrow> t = []
         | Some r \<Rightarrow> real_lit r \<and> (\<exists>w7 w8. list_all isspace (w7 @ w8) \<and> t = w7 @ '','' @ w8 @ r)))"

definition drag_grammar :: "string \<Rightarrow> string \<Rightarrow> string \<Rightarrow> string \<Rightarrow> string \<Rightarrow> string option \<Rightarrow> bool" where
  "drag_grammar line a b c d dur \<longleftrightarrow>
     (\<exists>w0 s w9. list_all isspace (w0 @ w9) \<and> line = w0 @ s @ w9 \<and> drag_core s a b c d dur)"

text \<open>A line that begins with a keyword, whatever the case of its letters; the text of a
  parse error for the line numbered \<open>idx\<close> of the file at \<open>path\<close>; and a float that is a
  non-negative real number.\<close>

definition begins_ci :: "string \<Rightarrow> string \<Rightarrow> bool" where
  "begins_ci s kw = (map lower (take (length kw) s) = map lower kw)"

definition located :: "string \<Rightarrow> nat \<Rightarrow> string \<Rightarrow> string" where
  "located path idx reason = path @ '':'' @ str_nat idx @ '': '' @ reason"

fun nonneg_real :: "pyfloat \<Rightarrow> bool" where
  "nonneg_real (Fin q) = (0 \<le> q)"
| "nonneg_real PInf = False"
| "nonneg_real NInf = False"
| "nonneg_real NaN = False"

text \<open>The matcher succeeds on \<open>s\<close> from the state \<open>m\<close> with a result that satisfies \<open>P\<close>.\<close>

definition accepts :: "string \<Rightarrow> rx list \<Rightarrow> string \<Rightarrow> mstate \<Rightarrow> (mstate \<Rightarrow> bool) \<Rightarrow> bool" where
  "accepts inp rs s m P = (\<exists>G. rmatch inp rs s m = Some G \<and> P G)"

section \<open>The executor's properties\<close>

lemmas py_defs = strip_def isspace_def isdigit_def upper_def lower_def startswith_def split_def
  opt_sign_def floatnumber_def digitpart_def exponent_def scale10_def nat_of_digits_def digit_val_def
  to_float_def py_float_def py_int_def re_match_def drag_line_re_def int_group_def dur_group_def mstate0_def
  parse_line_def Let_def

lemma button_event_eq: "button_event = (\<lambda>ev. is_press ev \<or> is_release ev)"
  by (rule ext) (simp add: button_event_def)

lemma first_drag_None: "first_drag steps = None \<longleftrightarrow> \<not> list_ex is_drag steps"
  by (induction steps rule: first_drag.induct) auto

lemma exec_step_trace:
  "\<exists>evs. trace (fst (exec_step env dd bd s st)) = trace st @ evs \<and>
         \<not> list_ex is_release evs \<and> \<not> list_ex is_press evs \<and> PrintRelease \<notin> set evs"
  by (cases s) (auto simp: call_def Let_def split: option.splits)

lemma run_steps_trace:
  "\<exists>evs. trace (fst (run_steps env dd bd ss st)) = trace st @ evs \<and>
         \<not> list_ex is_release evs \<and> \<not> list_ex is_press evs \<and> PrintRelease \<notin> set evs"
proof (induction ss arbitrary: st)
  case Nil
  then show ?case by simp
next
  case (Cons s ss)
  obtain st' r where e: "exec_step env dd bd s st = (st', r)" by (cases "exec_step env dd bd s st")
  from exec_step_trace [of env dd bd s st] e
  obtain evs where 1: "trace st' = trace st @ evs" "\<not> list_ex is_release evs" "\<not> list_ex is_press evs"
    "PrintRelease \<notin> set evs"
    by auto
  show ?case
  proof (cases r)
    case None
    from Cons.IH [of st'] obtain evs' where
      2: "trace (fst (run_steps env dd bd ss st')) = trace st' @ evs'"
         "\<not> list_ex is_release evs'" "\<not> list_ex is_press evs'" "PrintRelease \<notin> set evs'" by auto
    with 1 e None show ?thesis by (intro exI [of _ "evs @ evs'"]) simp
  next
    case (Some x)
    with 1 e show ?thesis by (intro exI [of _ evs]) simp
  qed
qed

text \<open>The run of a sequence with a Drag step whose first two calls return.\<close>

lemma run_shape:
  assumes "list_ex is_drag steps" and "env 1 = None" and "env 2 = None"
  shows "\<exists>pre. fst (run_single_hold env steps dd button bd)
                 = pre @ PrintRelease # (if env (length pre) = None then [MouseUp (button_of button)] else [])
               \<and> filter button_event pre = [MouseDown (button_of button)]
               \<and> PrintRelease \<notin> set pre"
proof -
  from assms(1) obtain x1 y1 x2 y2 dur where fd: "first_drag steps = Some (x1, y1, x2, y2, dur)"
    using first_drag_None [of steps] by (cases "first_drag steps") auto
  let ?st0 = "\<lparr>current = (x1, y1), seg_index = 0,
               trace = [PrintStart x1 y1 (button_of button), MoveTo x1 y1 None Linear, MouseDown (button_of button)]\<rparr>"
  obtain st r where rs: "run_steps env dd bd steps ?st0 = (st, r)"
    by (cases "run_steps env dd bd steps ?st0")
  from run_steps_trace [of env dd bd steps ?st0] rs
  obtain evs where tr: "trace st = trace ?st0 @ evs" "\<not> list_ex is_release evs" "\<not> list_ex is_press evs"
    "PrintRelease \<notin> set evs"
    by auto
  have nf: "filter button_event evs = []"
    using tr(2,3) by (auto simp: list_ex_iff filter_empty_conv button_event_def)
  have "fst (run_single_hold env steps dd button bd)
          = trace st @ PrintRelease # (if env (length (trace st)) = None then [MouseUp (button_of button)] else [])"
    using fd assms(2,3) rs
    by (auto simp: run_single_hold_def call_def Let_def numeral_2_eq_2 split: option.splits)
  moreover have "filter button_event (trace st) = [MouseDown (button_of button)]"
    using tr(1) nf by (simp add: button_event_def)
  moreover have "PrintRelease \<notin> set (trace st)" using tr(1,4) by simp
  ultimately show ?thesis by blast
qed

lemma run_early:
  assumes "\<not> list_ex is_drag steps \<or> env 1 \<noteq> None \<or> env 2 \<noteq> None"
  shows "\<not> list_ex is_release (fst (run_single_hold env steps dd button bd))"
proof (cases "first_drag steps")
  case None
  then show ?thesis by (simp add: run_single_hold_def)
next
  case (Some p)
  then have "list_ex is_drag steps" using first_drag_None [of steps] by simp
  with assms have "env (Suc 0) \<noteq> None \<or> env (Suc (Suc 0)) \<noteq> None" by (simp add: numeral_2_eq_2)
  with Some show ?thesis
    by (cases p) (auto simp: run_single_hold_def call_def Let_def split: option.splits)
qed

text \<open>C2: a step sequence without a Drag step makes the run print its notice and return;
  the button is neither pressed nor released, whatever the environment.\<close>

theorem no_drag_no_button:
  assumes "\<not> list_ex is_drag steps"
  shows "run_single_hold env steps default_duration button between_delay = ([PrintNoDrag], Returned)"
proof -
  from assms have "first_drag steps = None" by (simp add: first_drag_None)
  then show ?thesis by (simp add: run_single_hold_def)
qed

theorem no_drag_no_button_witness:
  "\<not> list_ex is_drag [Sleep (Fin 1), Sleep PInf] \<and>
   run_single_hold (fault_at 0 KeyboardInterrupt) [Sleep (Fin 1), Sleep PInf] (Fin (3/2)) ''left'' (Fin 0)
     = ([PrintNoDrag], Returned)"
  using no_drag_no_button [of "[Sleep (Fin 1), Sleep PInf]" "fault_at 0 KeyboardInterrupt" "Fin (3/2)" "''left''" "Fin 0"]
  by simp

text \<open>C1, as amended: when the sequence has a Drag step and the move to the start and the
  press have returned, the \<^verbatim>\<open>finally\<close> block is reached however the loop is left (it
  completes, or any call in it raises): the trace ends with the print of line 123, which
  occurs nowhere before, followed by the release when that print has returned; nothing before
  the print is a release.  So the button is released exactly once, as the last action, when
  the print of line 123 returns, and not at all when it raises.  When the sequence has no Drag
  step, or the move to the start or the press raises, the button is not released.\<close>

theorem release_once:
  "(list_ex is_drag steps \<and> env 1 = None \<and> env 2 = None \<longrightarrow>
      (\<exists>pre. fst (run_single_hold env steps default_duration button between_delay)
                = pre @ PrintRelease #
                    (if env (length pre) = None then [MouseUp (button_of button)] else [])
            \<and> \<not> list_ex is_release pre \<and> PrintRelease \<notin> set pre
            \<and> length (filter is_release
                 (fst (run_single_hold env steps default_duration button between_delay)))
                = (if env (length pre) = None then 1 else 0)))
   \<and> (\<not> list_ex is_drag steps \<or> env 1 \<noteq> None \<or> env 2 \<noteq> None \<longrightarrow>
        length (filter is_release
          (fst (run_single_hold env steps default_duration button between_delay))) = 0)"
proof (intro conjI impI)
  assume "list_ex is_drag steps \<and> env 1 = None \<and> env 2 = None"
  then have a: "list_ex is_drag steps" "env 1 = None" "env 2 = None" by simp_all
  from run_shape [OF a, of default_duration button between_delay] obtain pre where
    p: "fst (run_single_hold env steps default_duration button between_delay)
          = pre @ PrintRelease # (if env (length pre) = None then [MouseUp (button_of button)] else [])"
       "filter button_event pre = [MouseDown (button_of button)]" "PrintRelease \<notin> set pre" by blast
  have "filter is_release pre = filter is_release (filter button_event pre)"
    by (simp add: button_event_def conj_commute cong: conj_cong)
  with p(2) have nr: "filter is_release pre = []" by simp
  then have "\<not> list_ex is_release pre" by (simp add: list_ex_iff filter_empty_conv)
  with p(1,3) nr show "\<exists>pre. fst (run_single_hold env steps default_duration button between_delay)
                = pre @ PrintRelease #
                    (if env (length pre) = None then [MouseUp (button_of button)] else [])
            \<and> \<not> list_ex is_release pre \<and> PrintRelease \<notin> set pre
            \<and> length (filter is_release
                 (fst (run_single_hold env steps default_duration button between_delay)))
                = (if env (length pre) = None then 1 else 0)"
    by (intro exI [of _ pre]) simp
next
  assume "\<not> list_ex is_drag steps \<or> env 1 \<noteq> None \<or> env 2 \<noteq> None"
  from run_early [OF this, of default_duration button between_delay]
  show "length (filter is_release
          (fst (run_single_hold env steps default_duration button between_delay))) = 0"
    by (simp add: list_ex_iff filter_empty_conv)
qed

theorem release_once_witness:
  "(list_ex is_drag [Drag 0 0 1 1 None, Sleep (Fin 1), Drag 2 2 3 3 None] \<and>
    fault_at 4 KeyboardInterrupt 1 = None \<and> fault_at 4 KeyboardInterrupt 2 = None) \<and>
   fst (run_single_hold (fault_at 4 KeyboardInterrupt)
      [Drag 0 0 1 1 None, Sleep (Fin 1), Drag 2 2 3 3 None] (Fin (3/2)) ''left'' (Fin 0))
     = [PrintStart 0 0 ''left'', MoveTo 0 0 None Linear, MouseDown ''left'',
        PrintMove 1 0 0 1 1 (Fin (3/2)), MoveTo 1 1 (Some (Fin (3/2))) EaseInOutQuad,
        PrintRelease, MouseUp ''left''] \<and>
   length (filter is_release (fst (run_single_hold (fault_at 4 KeyboardInterrupt)
      [Drag 0 0 1 1 None, Sleep (Fin 1), Drag 2 2 3 3 None] (Fin (3/2)) ''left'' (Fin 0)))) = 1 \<and>
   fault_at 2 FailSafeException 2 = Some FailSafeException \<and>
   length (filter is_release (fst (run_single_hold (fault_at 2 FailSafeException)
      [Drag 0 0 1 1 None] (Fin (3/2)) ''left'' (Fin 0)))) = 0"
proof -
  have t: "fst (run_single_hold (fault_at 4 KeyboardInterrupt)
      [Drag 0 0 1 1 None, Sleep (Fin 1), Drag 2 2 3 3 None] (Fin (3/2)) ''left'' (Fin 0))
     = [PrintStart 0 0 ''left'', MoveTo 0 0 None Linear, MouseDown ''left'',
        PrintMove 1 0 0 1 1 (Fin (3/2)), MoveTo 1 1 (Some (Fin (3/2))) EaseInOutQuad,
        PrintRelease, MouseUp ''left'']"
    by (simp add: run_single_hold_def call_def fault_at_def no_faults_def button_of_def lower_def
          Let_def numeral_2_eq_2)
  show ?thesis
    using release_once [of "[Drag 0 0 1 1 None, Sleep (Fin 1), Drag 2 2 3 3 None]"
        "fault_at 4 KeyboardInterrupt" "Fin (3/2)" "''left''" "Fin 0"]
      release_once [of "[Drag 0 0 1 1 None]" "fault_at 2 FailSafeException" "Fin (3/2)" "''left''" "Fin 0"]
    by (simp add: t) (simp add: fault_at_def no_faults_def)
qed

theorem release_once_counterexample:
  "[Sleep (Fin 1)] \<noteq> [] \<and>
   length (filter is_release
     (fst (run_single_hold no_faults [Sleep (Fin 1)] (Fin (3/2)) ''left'' (Fin 0)))) = 0 \<and>
   [Drag 0 0 1 1 None] \<noteq> [] \<and>
   run_single_hold (fault_at 1 FailSafeException) [Drag 0 0 1 1 None] (Fin (3/2)) ''left'' (Fin 0)
     = ([PrintStart 0 0 ''left'', MoveTo 0 0 None Linear], Raised FailSafeException) \<and>
   run_single_hold (fault_at 2 FailSafeException) [Drag 0 0 1 1 None] (Fin (3/2)) ''left'' (Fin 0)
     = ([PrintStart 0 0 ''left'', MoveTo 0 0 None Linear, MouseDown ''left''],
        Raised FailSafeException) \<and>
   run_single_hold (fault_at 5 KeyboardInterrupt) [Drag 0 0 1 1 None] (Fin (3/2)) ''left'' (Fin 0)
     = ([PrintStart 0 0 ''left'', MoveTo 0 0 None Linear, MouseDown ''left'',
         PrintMove 1 0 0 1 1 (Fin (3/2)), MoveTo 1 1 (Some (Fin (3/2))) EaseInOutQuad, PrintRelease],
        Raised KeyboardInterrupt)"
  by (simp add: run_single_hold_def call_def fault_at_def no_faults_def button_of_def lower_def
        Let_def numeral_2_eq_2)

text \<open>C10: the button used is the lower-cased option when that is \<^verbatim>\<open>left\<close>,
  \<^verbatim>\<open>right\<close> or \<^verbatim>\<open>middle\<close>, and \<^verbatim>\<open>left\<close> otherwise.  When the sequence has a
  Drag step and the move to the start and the press have returned, that button is the one
  pressed, once, before the print of line 123, and the one released after it when that print
  returns; the run presses and releases nothing else.\<close>

theorem button_normalised:
  assumes "list_ex is_drag steps" and "env 1 = None" and "env 2 = None"
  shows "\<exists>pre. fst (run_single_hold env steps default_duration button between_delay)
           = pre @ PrintRelease #
               (if env (length pre) = None
                then [MouseUp (if map lower button = ''left'' \<or> map lower button = ''right'' \<or>
                                  map lower button = ''middle''
                               then map lower button else ''left'')]
                else [])
         \<and> PrintRelease \<notin> set pre
         \<and> filter (\<lambda>ev. is_press ev \<or> is_release ev) pre
           = [MouseDown (if map lower button = ''left'' \<or> map lower button = ''right'' \<or>
                            map lower button = ''middle''
                         then map lower button else ''left'')]
         \<and> filter (\<lambda>ev. is_press ev \<or> is_release ev)
             (fst (run_single_hold env steps default_duration button between_delay))
           = MouseDown (if map lower button = ''left'' \<or> map lower button = ''right'' \<or>
                            map lower button = ''middle''
                         then map lower button else ''left'') #
             (if env (length pre) = None
              then [MouseUp (if map lower button = ''left'' \<or> map lower button = ''right'' \<or>
                                map lower button = ''middle''
                             then map lower button else ''left'')]
              else [])"
proof -
  let ?b = "if map lower button = ''left'' \<or> map lower button = ''right'' \<or>
               map lower button = ''middle''
            then map lower button else ''left''"
  have b: "button_of button = ?b"
    by (simp add: button_of_def Let_def)
  from run_shape [OF assms, of default_duration button between_delay] obtain pre where
    p: "fst (run_single_hold env steps default_duration button between_delay)
          = pre @ PrintRelease # (if env (length pre) = None then [MouseUp (button_of button)] else [])"
       "filter button_event pre = [MouseDown (button_of button)]"
       "PrintRelease \<notin> set pre" by blast
  have 1: "fst (run_single_hold env steps default_duration button between_delay)
           = pre @ PrintRelease # (if env (length pre) = None then [MouseUp ?b] else [])"
    using p(1) by (simp only: b)
  have 2: "filter (\<lambda>ev. is_press ev \<or> is_release ev) pre = [MouseDown ?b]"
    using p(2) by (simp only: button_event_eq b)
  have 3: "filter (\<lambda>ev. is_press ev \<or> is_release ev)
             (fst (run_single_hold env steps default_duration button between_delay))
           = MouseDown ?b # (if env (length pre) = None then [MouseUp ?b] else [])"
    unfolding 1 filter_append 2 by simp
  from 1 p(3) 2 3 show ?thesis by (intro exI [of _ pre] conjI)
qed

theorem button_normalised_witness:
  "list_ex is_drag [Drag 0 0 1 1 None] \<and> no_faults 1 = None \<and> no_faults 2 = None \<and>
   fst (run_single_hold no_faults [Drag 0 0 1 1 None] (Fin (3/2)) ''Wheel'' (Fin 0))
     = [PrintStart 0 0 ''left'', MoveTo 0 0 None Linear, MouseDown ''left'',
        PrintMove 1 0 0 1 1 (Fin (3/2)), MoveTo 1 1 (Some (Fin (3/2))) EaseInOutQuad,
        PrintRelease, MouseUp ''left''] \<and>
   fst (run_single_hold no_faults [Drag 0 0 1 1 None] (Fin (3/2)) ''RIGHT'' (Fin 0))
     = [PrintStart 0 0 ''right'', MoveTo 0 0 None Linear, MouseDown ''right'',
        PrintMove 1 0 0 1 1 (Fin (3/2)), MoveTo 1 1 (Some (Fin (3/2))) EaseInOutQuad,
        PrintRelease, MouseUp ''right'']"
proof -
  have t: "fst (run_single_hold no_faults [Drag 0 0 1 1 None] (Fin (3/2)) ''Wheel'' (Fin 0))
     = [PrintStart 0 0 ''left'', MoveTo 0 0 None Linear, MouseDown ''left'',
        PrintMove 1 0 0 1 1 (Fin (3/2)), MoveTo 1 1 (Some (Fin (3/2))) EaseInOutQuad,
        PrintRelease, MouseUp ''left'']"
    "fst (run_single_hold no_faults [Drag 0 0 1 1 None] (Fin (3/2)) ''RIGHT'' (Fin 0))
     = [PrintStart 0 0 ''right'', MoveTo 0 0 None Linear, MouseDown ''right'',
        PrintMove 1 0 0 1 1 (Fin (3/2)), MoveTo 1 1 (Some (Fin (3/2))) EaseInOutQuad,
        PrintRelease, MouseUp ''right'']"
    by (simp_all add: run_single_hold_def call_def no_faults_def button_of_def lower_def
          Let_def numeral_2_eq_2)
  show ?thesis
    using button_normalised [of "[Drag 0 0 1 1 None]" no_faults "Fin (3/2)" "''Wheel''" "Fin 0"]
        button_normalised [of "[Drag 0 0 1 1 None]" no_faults "Fin (3/2)" "''RIGHT''" "Fin 0"]
    by (simp add: t) (simp add: no_faults_def)
qed






text \<open>C7: the example of the docstring parses to its three steps, and their run with no
  call raising, the left button and no pause between segments presses at the first start,
  makes the two timed moves around the sleep, and releases.\<close>

theorem example_run:
  "parse_file path ''-660,663 -> -961,494,1.0\<newline>SLEEP 0.1\<newline>-961,494 -> -1260,494,1.0''
     = Inr [Drag (- 660) 663 (- 961) 494 (Some (Fin 1)), Sleep (Fin (1 / 10)),
            Drag (- 961) 494 (- 1260) 494 (Some (Fin 1))]
   \<and> run_single_hold no_faults
        [Drag (- 660) 663 (- 961) 494 (Some (Fin 1)), Sleep (Fin (1 / 10)),
         Drag (- 961) 494 (- 1260) 494 (Some (Fin 1))] default_duration ''left'' (Fin 0)
     = ([PrintStart (- 660) 663 ''left'', MoveTo (- 660) 663 None Linear, MouseDown ''left'',
         PrintMove 1 (- 660) 663 (- 961) 494 (Fin 1), MoveTo (- 961) 494 (Some (Fin 1)) EaseInOutQuad,
         PrintSleep (Fin (1 / 10)), TimeSleep (Fin (1 / 10)),
         PrintMove 2 (- 961) 494 (- 1260) 494 (Fin 1), MoveTo (- 1260) 494 (Some (Fin 1)) EaseInOutQuad,
         PrintRelease, MouseUp ''left''], Returned)"
proof -
  have fl: "file_lines ''-660,663 -> -961,494,1.0\<newline>SLEEP 0.1\<newline>-961,494 -> -1260,494,1.0''
      = [''-660,663 -> -961,494,1.0\<newline>'', ''SLEEP 0.1\<newline>'', ''-961,494 -> -1260,494,1.0'']"
    by (simp add: file_lines_def)
  have l1: "parse_line path 1 ''-660,663 -> -961,494,1.0\<newline>''
      = Inr (Some (Drag (- 660) 663 (- 961) 494 (Some (Fin 1))))"
    by (simp add: py_defs)
  have l2: "parse_line path 2 ''SLEEP 0.1\<newline>'' = Inr (Some (Sleep (Fin (1 / 10))))"
    by (simp add: py_defs)
  have l3: "parse_line path 3 ''-961,494 -> -1260,494,1.0''
      = Inr (Some (Drag (- 961) 494 (- 1260) 494 (Some (Fin 1))))"
    by (simp add: py_defs)
  have p: "parse_file path ''-660,663 -> -961,494,1.0\<newline>SLEEP 0.1\<newline>-961,494 -> -1260,494,1.0''
     = Inr [Drag (- 660) 663 (- 961) 494 (Some (Fin 1)), Sleep (Fin (1 / 10)),
            Drag (- 961) 494 (- 1260) 494 (Some (Fin 1))]"
    unfolding parse_file_def fl using l1 l2 l3 by (simp add: numeral_2_eq_2 numeral_3_eq_3)
  have r: "run_single_hold no_faults
        [Drag (- 660) 663 (- 961) 494 (Some (Fin 1)), Sleep (Fin (1 / 10)),
         Drag (- 961) 494 (- 1260) 494 (Some (Fin 1))] default_duration ''left'' (Fin 0)
     = ([PrintStart (- 660) 663 ''left'', MoveTo (- 660) 663 None Linear, MouseDown ''left'',
         PrintMove 1 (- 660) 663 (- 961) 494 (Fin 1), MoveTo (- 961) 494 (Some (Fin 1)) EaseInOutQuad,
         PrintSleep (Fin (1 / 10)), TimeSleep (Fin (1 / 10)),
         PrintMove 2 (- 961) 494 (- 1260) 494 (Fin 1), MoveTo (- 1260) 494 (Some (Fin 1)) EaseInOutQuad,
         PrintRelease, MouseUp ''left''], Returned)"
    by (simp add: run_single_hold_def call_def no_faults_def button_of_def lower_def Let_def numeral_2_eq_2)
  from p r show ?thesis by simp
qed

section \<open>The parser's properties\<close>

subsection \<open>The matcher on one atom\<close>

lemma digit_not_space: "isdigit c \<Longrightarrow> \<not> isspace c"
  by (auto simp: isdigit_def isspace_def)

lemma in_cset_range_digit: "in_cset (Range CHR ''0'' CHR ''9'') c = isdigit c"
proof
  assume "isdigit c" then show "in_cset (Range CHR ''0'' CHR ''9'') c"
    by (auto simp: isdigit_def)
next
  assume a: "in_cset (Range CHR ''0'' CHR ''9'') c"
  then have "48 \<le> (of_char c :: nat) \<and> (of_char c :: nat) < 58" by auto
  then have "(of_char c :: nat) \<in> set [48..<58]" by (simp only: set_upt atLeastLessThan_iff)
  also have "[48::nat..<58] = [48, 49, 50, 51, 52, 53, 54, 55, 56, 57]" by code_simp
  finally have "(of_char c :: nat) \<in> of_char ` set ''0123456789''" by simp
  then have "c \<in> set ''0123456789''" by (auto simp only: of_char_eq_iff)
  then show "isdigit c" by (simp add: isdigit_def)
qed

lemma star_ok:
  "list_all (in_cset cs) u \<Longrightarrow> v = [] \<or> \<not> in_cset cs (hd v) \<Longrightarrow> rmatch inp rs v m = Some G
   \<Longrightarrow> rmatch inp (Atom cs ZeroOrMore # rs) (u @ v) m = Some G"
proof (induction u)
  case Nil
  then show ?case by (cases v) auto
next
  case (Cons c u)
  then show ?case by simp
qed

lemma plus_ok:
  "list_all (in_cset cs) u \<Longrightarrow> u \<noteq> [] \<Longrightarrow> v = [] \<or> \<not> in_cset cs (hd v) \<Longrightarrow> rmatch inp rs v m = Some G
   \<Longrightarrow> rmatch inp (Atom cs OneOrMore # rs) (u @ v) m = Some G"
  by (cases u) (auto simp: star_ok)

lemma opt_absent:
  "v = [] \<or> \<not> in_cset cs (hd v) \<Longrightarrow> rmatch inp (Atom cs ZeroOrOne # rs) v m = rmatch inp rs v m"
  by (cases v) auto

lemma opt_present:
  "in_cset cs c \<Longrightarrow> rmatch inp rs v m = Some G \<Longrightarrow> rmatch inp (Atom cs ZeroOrOne # rs) (c # v) m = Some G"
  by simp

lemma star_inv:
  "rmatch inp (Atom cs ZeroOrMore # rs) s m = Some G
   \<Longrightarrow> \<exists>u v. s = u @ v \<and> list_all (in_cset cs) u \<and> rmatch inp rs v m = Some G"
proof (induction s)
  case Nil
  then show ?case by auto
next
  case (Cons c s)
  show ?case
  proof (cases "in_cset cs c \<and> rmatch inp (Atom cs ZeroOrMore # rs) s m \<noteq> None")
    case True
    with Cons.prems have "rmatch inp (Atom cs ZeroOrMore # rs) s m = Some G" by auto
    from Cons.IH [OF this] obtain u v where "s = u @ v" "list_all (in_cset cs) u" "rmatch inp rs v m = Some G"
      by blast
    with True show ?thesis by (intro exI [of _ "c # u"] exI [of _ v]) simp
  next
    case False
    with Cons.prems have "rmatch inp rs (c # s) m = Some G" by (auto split: if_splits)
    then show ?thesis by (intro exI [of _ "[]"] exI [of _ "c # s"]) simp
  qed
qed

lemma plus_inv:
  "rmatch inp (Atom cs OneOrMore # rs) s m = Some G
   \<Longrightarrow> \<exists>u v. s = u @ v \<and> u \<noteq> [] \<and> list_all (in_cset cs) u \<and> rmatch inp rs v m = Some G"
proof (cases s)
  case Nil
  assume "rmatch inp (Atom cs OneOrMore # rs) s m = Some G"
  with Nil show ?thesis by simp
next
  case (Cons c s')
  assume a: "rmatch inp (Atom cs OneOrMore # rs) s m = Some G"
  with Cons have c: "in_cset cs c" and "rmatch inp (Atom cs ZeroOrMore # rs) s' m = Some G"
    by (auto split: if_splits)
  from star_inv [OF this(2)] obtain u v where "s' = u @ v" "list_all (in_cset cs) u" "rmatch inp rs v m = Some G"
    by blast
  with Cons c show ?thesis by (intro exI [of _ "c # u"] exI [of _ v]) simp
qed

lemma opt_inv:
  "rmatch inp (Atom cs ZeroOrOne # rs) s m = Some G
   \<Longrightarrow> \<exists>u v. s = u @ v \<and> (u = [] \<or> (\<exists>c. u = [c] \<and> in_cset cs c)) \<and> rmatch inp rs v m = Some G"
proof (cases s)
  case Nil
  assume "rmatch inp (Atom cs ZeroOrOne # rs) s m = Some G"
  with Nil show ?thesis by simp
next
  case (Cons c s')
  assume a: "rmatch inp (Atom cs ZeroOrOne # rs) s m = Some G"
  show ?thesis
  proof (cases "in_cset cs c \<and> rmatch inp rs s' m \<noteq> None")
    case True
    with a Cons have "rmatch inp rs s' m = Some G" by auto
    with True Cons show ?thesis by (intro exI [of _ "[c]"] exI [of _ s']) simp
  next
    case False
    with a Cons have "rmatch inp rs s m = Some G" by (auto split: if_splits)
    then show ?thesis by (intro exI [of _ "[]"] exI [of _ s]) simp
  qed
qed

lemma one_inv:
  "rmatch inp (Atom cs One # rs) s m = Some G
   \<Longrightarrow> \<exists>c v. s = c # v \<and> in_cset cs c \<and> rmatch inp rs v m = Some G"
  by (cases s) (auto split: if_splits)

subsection \<open>Integer literals under the matcher\<close>

lemma in_cset_Digit [simp]: "in_cset Digit = isdigit"
  by (rule ext) simp

lemma in_cset_Space [simp]: "in_cset Space = isspace"
  by (rule ext) simp

lemma in_cset_Range09 [simp]: "in_cset (Range CHR ''0'' CHR ''9'') = isdigit"
  by (rule ext) (rule in_cset_range_digit)

lemma accepts_nil: "P m \<Longrightarrow> accepts inp [] s m P"
  by (simp add: accepts_def)

lemma accepts_star:
  "list_all (in_cset cs) u \<Longrightarrow> v = [] \<or> \<not> in_cset cs (hd v) \<Longrightarrow> accepts inp rs v m P
   \<Longrightarrow> accepts inp (Atom cs ZeroOrMore # rs) (u @ v) m P"
  unfolding accepts_def using star_ok by blast

lemma accepts_plus:
  "list_all (in_cset cs) u \<Longrightarrow> u \<noteq> [] \<Longrightarrow> v = [] \<or> \<not> in_cset cs (hd v) \<Longrightarrow> accepts inp rs v m P
   \<Longrightarrow> accepts inp (Atom cs OneOrMore # rs) (u @ v) m P"
  unfolding accepts_def using plus_ok by blast

lemma accepts_one:
  "in_cset cs c \<Longrightarrow> accepts inp rs v m P \<Longrightarrow> accepts inp (Atom cs One # rs) (c # v) m P"
  unfolding accepts_def by simp

lemma accepts_opt_absent:
  "v = [] \<or> \<not> in_cset cs (hd v) \<Longrightarrow> accepts inp rs v m P
   \<Longrightarrow> accepts inp (Atom cs ZeroOrOne # rs) v m P"
  unfolding accepts_def by (simp add: opt_absent)

lemma accepts_opt_present:
  "in_cset cs c \<Longrightarrow> accepts inp rs v m P \<Longrightarrow> accepts inp (Atom cs ZeroOrOne # rs) (c # v) m P"
  unfolding accepts_def by auto

lemma int_lit_cases:
  assumes "int_lit a"
  obtains ds where "a = CHR ''-'' # ds" "ds \<noteq> []" "list_all isdigit ds"
        | "a \<noteq> []" "list_all isdigit a"
  using assms by (auto simp: int_lit_def split: list.splits if_splits)

lemma minus_not_space: "\<not> isspace CHR ''-''"
  by (simp add: isspace_def)

lemma minus_not_digit: "\<not> isdigit CHR ''-''"
  by (simp add: isdigit_def)

lemma int_lit_ends: "int_lit a \<Longrightarrow> a \<noteq> [] \<and> \<not> isspace (hd a) \<and> isdigit (last a)"
proof (erule int_lit_cases)
  fix ds assume "a = CHR ''-'' # ds" "ds \<noteq> []" "list_all isdigit ds"
  then show ?thesis using last_in_set [of ds] by (simp add: minus_not_space list_all_iff)
next
  assume "a \<noteq> []" "list_all isdigit a"
  then show ?thesis
    using last_in_set [of a] hd_in_set [of a] digit_not_space [of "hd a"] by (simp add: list_all_iff)
qed

lemma int_group_ok:
  assumes "int_lit a" and "v = [] \<or> \<not> isdigit (hd v)"
    and "accepts inp rs v (m\<lparr>starts := (starts m)(n := a @ v), groups := (groups m)(n \<mapsto> a)\<rparr>) P"
  shows "accepts inp (int_group n @ rs) (a @ v) m P"
proof -
  have close: "accepts inp (Close n # rs) v (m\<lparr>starts := (starts m)(n := a @ v)\<rparr>) P"
    using assms(3) by (simp add: accepts_def)
  from assms(1) show ?thesis
  proof (cases rule: int_lit_cases)
    case (1 ds)
    have "accepts inp (Atom Digit OneOrMore # Close n # rs) (ds @ v) (m\<lparr>starts := (starts m)(n := a @ v)\<rparr>) P"
      using 1 assms(2) close by (intro accepts_plus) auto
    then have "accepts inp (Atom (Lit CHR ''-'') ZeroOrOne # Atom Digit OneOrMore # Close n # rs)
                 (CHR ''-'' # ds @ v) (m\<lparr>starts := (starts m)(n := a @ v)\<rparr>) P"
      by (intro accepts_opt_present) auto
    with 1 show ?thesis by (simp add: int_group_def accepts_def)
  next
    case 2
    have "accepts inp (Atom Digit OneOrMore # Close n # rs) (a @ v) (m\<lparr>starts := (starts m)(n := a @ v)\<rparr>) P"
      using 2 assms(2) close by (intro accepts_plus) auto
    moreover have "hd (a @ v) \<noteq> CHR ''-''"
      using 2 minus_not_digit by (cases a) auto
    ultimately have "accepts inp (Atom (Lit CHR ''-'') ZeroOrOne # Atom Digit OneOrMore # Close n # rs)
                 (a @ v) (m\<lparr>starts := (starts m)(n := a @ v)\<rparr>) P"
      by (intro accepts_opt_absent) auto
    then show ?thesis by (simp add: int_group_def accepts_def)
  qed
qed

lemma int_group_inv:
  assumes "rmatch inp (int_group n @ rs) s m = Some G"
  shows "\<exists>a v. s = a @ v \<and> int_lit a \<and>
           rmatch inp rs v (m\<lparr>starts := (starts m)(n := s), groups := (groups m)(n \<mapsto> a)\<rparr>) = Some G"
proof -
  let ?m = "m\<lparr>starts := (starts m)(n := s)\<rparr>"
  from assms have "rmatch inp (Atom (Lit CHR ''-'') ZeroOrOne # Atom Digit OneOrMore # Close n # rs) s ?m = Some G"
    by (simp add: int_group_def)
  from opt_inv [OF this] obtain u s1 where
    u: "s = u @ s1" "u = [] \<or> u = [CHR ''-'']"
    and "rmatch inp (Atom Digit OneOrMore # Close n # rs) s1 ?m = Some G" by auto
  from plus_inv [OF this(3)] obtain ds v where
    ds: "s1 = ds @ v" "ds \<noteq> []" "list_all (in_cset Digit) ds"
    and "rmatch inp (Close n # rs) v ?m = Some G" by blast
  then have "rmatch inp rs v (m\<lparr>starts := (starts m)(n := s), groups := (groups m)(n \<mapsto> u @ ds)\<rparr>) = Some G"
    using u by simp
  moreover have "int_lit (u @ ds)"
    using u(2) ds(2,3) minus_not_digit by (cases ds) (auto simp: int_lit_def)
  ultimately show ?thesis using u ds by (intro exI [of _ "u @ ds"] exI [of _ v]) simp
qed

subsection \<open>strip\<close>

lemma strip_split:
  "dropWhile isspace s = strip s @ rev (takeWhile isspace (rev (dropWhile isspace s)))"
proof -
  let ?x = "dropWhile isspace s"
  have "rev (takeWhile isspace (rev ?x) @ dropWhile isspace (rev ?x)) = rev (rev ?x)"
    by (simp only: takeWhile_dropWhile_id)
  then have "rev (dropWhile isspace (rev ?x)) @ rev (takeWhile isspace (rev ?x)) = ?x"
    by (simp only: rev_append rev_rev_ident)
  then show ?thesis by (simp only: strip_def)
qed

lemma list_all_takeWhile: "list_all P (takeWhile P xs)"
  by (induction xs) auto

lemma strip_decomp:
  "\<exists>l t. s = l @ strip s @ t \<and> list_all isspace l \<and> list_all isspace t"
proof -
  let ?x = "dropWhile isspace s"
  let ?t = "rev (takeWhile isspace (rev ?x))"
  have "s = takeWhile isspace s @ ?x" by simp
  also have "?x = strip s @ ?t" by (rule strip_split)
  finally have "s = takeWhile isspace s @ strip s @ ?t" .
  moreover have "list_all isspace (takeWhile isspace s)" by (rule list_all_takeWhile)
  moreover have "list_all isspace ?t" by (simp add: list_all_takeWhile)
  ultimately show ?thesis by blast
qed

lemma dropWhile_all: "list_all P l \<Longrightarrow> dropWhile P (l @ r) = dropWhile P r"
  by (induction l) auto

lemma strip_core:
  assumes "list_all isspace l" "list_all isspace t" "core \<noteq> []"
    "\<not> isspace (hd core)" "\<not> isspace (last core)"
  shows "strip (l @ core @ t) = core"
proof -
  have 1: "dropWhile isspace (l @ core @ t) = core @ t"
    using assms(1,3,4) by (cases core) (simp_all add: dropWhile_all)
  have 2: "dropWhile isspace (rev t @ rev core) = rev core"
    using assms(2,3,5) by (cases core rule: rev_cases) (simp_all add: dropWhile_all)
  show ?thesis by (simp add: strip_def 1 2)
qed

lemma strip_id: "s \<noteq> [] \<Longrightarrow> \<not> isspace (hd s) \<Longrightarrow> \<not> isspace (last s) \<Longrightarrow> strip s = s"
  using strip_core [of "[]" "[]" s] by simp

lemma strip_ends:
  assumes "strip s \<noteq> []"
  shows "\<not> isspace (hd (strip s)) \<and> \<not> isspace (last (strip s))"
proof -
  let ?x = "dropWhile isspace s"
  let ?y = "dropWhile isspace (rev ?x)"
  have s: "strip s = rev ?y" by (simp only: strip_def)
  with assms have y: "?y \<noteq> []" by simp
  then have hy: "\<not> isspace (hd ?y)" by (rule hd_dropWhile)
  have l: "last (strip s) = hd ?y" using y by (simp add: s last_rev)
  have "hd ?x = hd (strip s @ rev (takeWhile isspace (rev ?x)))"
    using strip_split [of s] by simp
  also have "\<dots> = hd (strip s)" using assms by simp
  finally have h: "hd (strip s) = hd ?x" by simp
  have "?x \<noteq> []"
  proof
    assume "?x = []"
    then have "?y = []" by (simp only: rev.simps dropWhile.simps)
    with y show False by contradiction
  qed
  then have "\<not> isspace (hd ?x)" by (rule hd_dropWhile)
  with h l hy show ?thesis by simp
qed

lemma strip_all_space: "list_all isspace s \<Longrightarrow> strip s = []"
proof -
  assume "list_all isspace s"
  then have d: "dropWhile isspace s = []" by (simp add: list_all_iff)
  show ?thesis unfolding strip_def d by simp
qed

subsection \<open>int and float on the literals of the drag grammar\<close>

lemma digits_more_digits:
  "list_all isdigit ds \<Longrightarrow> v = [] \<or> (\<not> isdigit (hd v) \<and> hd v \<noteq> CHR ''_'')
   \<Longrightarrow> digits_more (ds @ v) = (ds, v)"
proof (induction ds)
  case Nil
  then show ?case by (cases v) auto
next
  case (Cons c ds)
  then show ?case by simp
qed

lemma digitpart_digits:
  "list_all isdigit ds \<Longrightarrow> v = [] \<or> (\<not> isdigit (hd v) \<and> hd v \<noteq> CHR ''_'')
   \<Longrightarrow> digitpart (ds @ v) = (ds, v)"
proof (cases ds)
  case Nil
  assume "v = [] \<or> (\<not> isdigit (hd v) \<and> hd v \<noteq> CHR ''_'')"
  with Nil show ?thesis by (cases v) (auto simp: digitpart_def)
next
  case (Cons c ds')
  assume "list_all isdigit ds" "v = [] \<or> (\<not> isdigit (hd v) \<and> hd v \<noteq> CHR ''_'')"
  with Cons show ?thesis using digits_more_digits [of ds' v] by (simp add: digitpart_def)
qed

lemma plus_not_digit: "\<not> isdigit CHR ''+''"
  by (simp add: isdigit_def)

lemma dot_not_digit: "\<not> isdigit CHR ''.''"
  by (simp add: isdigit_def)

lemma dot_not_space: "\<not> isspace CHR ''.''"
  by (simp add: isspace_def)

lemma opt_sign_none: "r \<noteq> [] \<Longrightarrow> hd r \<noteq> CHR ''-'' \<Longrightarrow> hd r \<noteq> CHR ''+'' \<Longrightarrow> opt_sign r = (False, r)"
  by (cases r) (simp_all add: opt_sign_def)

lemma no_sign: "isdigit c \<or> c = CHR ''.'' \<Longrightarrow> c \<noteq> CHR ''-'' \<and> c \<noteq> CHR ''+''"
  using minus_not_digit plus_not_digit by auto

lemma py_int_lit: "int_lit a \<Longrightarrow> py_int a = Some (int_value a)"
proof (erule int_lit_cases)
  fix ds assume a: "a = CHR ''-'' # ds" "ds \<noteq> []" "list_all isdigit ds"
  then have "isdigit (last a)" using last_in_set [of ds] by (simp add: list_all_iff)
  then have "strip a = a" using a(1) minus_not_space digit_not_space by (intro strip_id) auto
  then show ?thesis
    using a digitpart_digits [of ds "[]"] by (simp add: py_int_def opt_sign_def int_value_def)
next
  assume a: "a \<noteq> []" "list_all isdigit a"
  then have d: "isdigit (hd a)" "isdigit (last a)"
    using last_in_set [of a] hd_in_set [of a] by (simp_all add: list_all_iff)
  then have "strip a = a" using a(1) digit_not_space by (intro strip_id) auto
  moreover have "hd a \<noteq> CHR ''-''" "hd a \<noteq> CHR ''+''"
    using d(1) minus_not_digit plus_not_digit by auto
  ultimately show ?thesis
    using a digitpart_digits [of a "[]"]
    by (cases a) (simp_all add: py_int_def opt_sign_def int_value_def)
qed

lemma real_lit_cases:
  assumes "real_lit r"
  obtains a b where "r = a @ CHR ''.'' # b" "list_all isdigit a" "list_all isdigit b" "b \<noteq> []"
        | "r \<noteq> []" "list_all isdigit r"
proof (cases "dropWhile isdigit r")
  case Nil
  then have "list_all isdigit r" by (simp add: list_all_iff dropWhile_eq_Nil_conv)
  moreover from assms have "r \<noteq> []" unfolding real_lit_def Nil by simp
  ultimately show ?thesis by (rule that(2) [rotated])
next
  case (Cons c b)
  from assms have c: "c = CHR ''.''" "b \<noteq> []" "list_all isdigit b"
    unfolding real_lit_def Cons by simp_all
  have "r = takeWhile isdigit r @ dropWhile isdigit r" by simp
  then have f1: "r = takeWhile isdigit r @ CHR ''.'' # b" unfolding Cons c(1) .
  have f2: "list_all isdigit (takeWhile isdigit r)"
    by (rule list_all_takeWhile)
  show ?thesis by (rule that(1) [OF f1 f2 c(3) c(2)])
qed

lemma takeWhile_all: "list_all P a \<Longrightarrow> \<not> P c \<Longrightarrow> takeWhile P (a @ c # b) = a"
  by (induction a) auto

lemma dropWhile_stop: "list_all P a \<Longrightarrow> \<not> P c \<Longrightarrow> dropWhile P (a @ c # b) = c # b"
  by (induction a) auto

lemma real_value_dot:
  "list_all isdigit a \<Longrightarrow> real_value (a @ CHR ''.'' # b) = of_nat (nat_of_digits (a @ b)) / 10 ^ length b"
  by (simp add: real_value_def takeWhile_all dropWhile_stop dot_not_digit)

lemma real_value_nodot:
  "list_all isdigit r \<Longrightarrow> real_value r = of_nat (nat_of_digits r)"
proof -
  assume a: "list_all isdigit r"
  then have t: "takeWhile isdigit r = r" and d: "dropWhile isdigit r = []"
    by (simp_all add: list_all_iff)
  show ?thesis unfolding real_value_def Let_def t d by simp
qed

lemma lower_digit: "isdigit c \<Longrightarrow> lower c = c"
proof -
  have "\<forall>c \<in> set ''0123456789''. lower c = c" by (simp add: lower_def)
  then show "isdigit c \<Longrightarrow> lower c = c" unfolding isdigit_def by blast
qed

lemma lower_dot: "lower CHR ''.'' = CHR ''.''"
  by (simp add: lower_def)

lemma not_special:
  assumes "r \<noteq> []" "isdigit (hd r) \<or> hd r = CHR ''.''"
  shows "map lower r \<noteq> ''inf'' \<and> map lower r \<noteq> ''infinity'' \<and> map lower r \<noteq> ''nan''"
proof -
  from assms obtain c cs where r: "r = c # cs" by (cases r) auto
  with assms(2) have "lower c = c" using lower_digit lower_dot by auto
  moreover from assms(2) r have "c \<noteq> CHR ''i''" "c \<noteq> CHR ''n''" by (auto simp: isdigit_def)
  ultimately show ?thesis using r by auto
qed

lemma py_float_lit: "real_lit r \<Longrightarrow> py_float r = Some (to_float (real_value r))"
proof (erule real_lit_cases)
  fix a b assume r: "r = a @ CHR ''.'' # b" "list_all isdigit a" "list_all isdigit b" "b \<noteq> []"
  have hd: "isdigit (hd r) \<or> hd r = CHR ''.''"
    using r(1,2) by (cases a) auto
  have "isdigit (last r)" using r last_in_set [of b] by (simp add: list_all_iff)
  then have s: "strip r = r"
    using hd r(1) digit_not_space dot_not_space by (intro strip_id) auto
  have "r \<noteq> []" using r(1) by simp
  then have sg: "opt_sign r = (False, r)"
    using no_sign [OF hd] by (intro opt_sign_none) simp_all
  have dp1: "digitpart (a @ CHR ''.'' # b) = (a, CHR ''.'' # b)"
    using r(2) by (intro digitpart_digits) (simp_all add: dot_not_digit)
  have dp2: "digitpart b = (b, [])"
    using digitpart_digits [of b "[]"] r(3) by simp
  have fn: "floatnumber r = Some (real_value r)"
    unfolding r(1) using r(2,4)
    by (simp add: floatnumber_def dp1 dp2 exponent_def scale10_def real_value_dot)
  have ns: "map lower r \<noteq> ''inf'' \<and> map lower r \<noteq> ''infinity'' \<and> map lower r \<noteq> ''nan''"
    using \<open>r \<noteq> []\<close> hd by (rule not_special)
  show ?thesis by (simp add: py_float_def s sg fn ns)
next
  assume r: "r \<noteq> []" "list_all isdigit r"
  then have d: "isdigit (hd r)" "isdigit (last r)"
    using last_in_set [of r] hd_in_set [of r] by (simp_all add: list_all_iff)
  then have s: "strip r = r" using r(1) digit_not_space by (intro strip_id) auto
  have sg: "opt_sign r = (False, r)"
    using no_sign [of "hd r"] d(1) r(1) by (intro opt_sign_none) simp_all
  have dp: "digitpart r = (r, [])" using digitpart_digits [of r "[]"] r(2) by simp
  have fn: "floatnumber r = Some (real_value r)"
    using r by (simp add: floatnumber_def dp scale10_def real_value_nodot)
  have ns: "map lower r \<noteq> ''inf'' \<and> map lower r \<noteq> ''infinity'' \<and> map lower r \<noteq> ''nan''"
    using r(1) d(1) by (intro not_special) simp_all
  show ?thesis by (simp add: py_float_def s sg fn ns)
qed

subsection \<open>Values of duration literals\<close>

lemma real_value_nonneg: "0 \<le> real_value r"
  by (simp add: real_value_def Let_def)

lemma to_float_nonneg: "0 \<le> q \<Longrightarrow> to_float q = PInf \<or> (\<exists>q'. 0 \<le> q' \<and> to_float q = Fin q')"
  by (auto simp: to_float_def)

subsection \<open>The pieces of the drag pattern\<close>

lemma accepts_star_nil:
  "v = [] \<or> \<not> in_cset cs (hd v) \<Longrightarrow> accepts inp rs v m P
   \<Longrightarrow> accepts inp (Atom cs ZeroOrMore # rs) v m P"
  using accepts_star [of cs "[]" v inp rs m P] by simp

lemma accepts_bol: "accepts inp rs inp m P \<Longrightarrow> accepts inp (Bol # rs) inp m P"
  by (simp add: accepts_def)

lemma accepts_open:
  "accepts inp rs s (m\<lparr>starts := (starts m)(n := s)\<rparr>) P \<Longrightarrow> accepts inp (Open n # rs) s m P"
  by (simp add: accepts_def)

lemma accepts_optgroup:
  "accepts inp (g @ rs) s m P \<Longrightarrow> accepts inp (OptGroup g # rs) s m P"
  by (auto simp: accepts_def)

lemma comma_not_space: "\<not> isspace CHR '',''"
  by (simp add: isspace_def)

lemma comma_not_digit: "\<not> isdigit CHR '',''"
  by (simp add: isdigit_def)

lemma gt_not_space: "\<not> isspace CHR ''>''"
  by (simp add: isspace_def)

lemma hd_ws_not_digit: "list_all isspace w \<Longrightarrow> \<not> isdigit c \<Longrightarrow> \<not> isdigit (hd (w @ c # x))"
  using digit_not_space by (cases w) auto

lemma hd_ws_not_sep: "list_all isspace w \<Longrightarrow> \<not> isspace c \<Longrightarrow> c' \<noteq> c
  \<Longrightarrow> w = [] \<or> hd (w @ c' # x) \<noteq> c"
  by (cases w) auto

lemma int_group_ok':
  assumes "int_lit a" and "v = [] \<or> \<not> isdigit (hd v)"
    and "\<And>m'. groups m' = (groups m)(n \<mapsto> a) \<Longrightarrow> accepts inp rs v m' P"
  shows "accepts inp (int_group n @ rs) (a @ v) m P"
  using assms(1,2) by (rule int_group_ok) (rule assms(3), simp)

lemma int_group_inv':
  assumes "rmatch inp (int_group n @ rs) s m = Some G"
  shows "\<exists>a v m'. s = a @ v \<and> int_lit a \<and> groups m' = (groups m)(n \<mapsto> a) \<and>
           rmatch inp rs v m' = Some G"
proof -
  from int_group_inv [OF assms] obtain a v where
    "s = a @ v" "int_lit a"
    "rmatch inp rs v (m\<lparr>starts := (starts m)(n := s), groups := (groups m)(n \<mapsto> a)\<rparr>) = Some G"
    by blast
  then show ?thesis
    by (intro exI [of _ a] exI [of _ v]
          exI [of _ "m\<lparr>starts := (starts m)(n := s), groups := (groups m)(n \<mapsto> a)\<rparr>"]) simp
qed

lemma sep_ok:
  assumes "\<not> isspace c" "list_all isspace w1" "list_all isspace w2" "v = [] \<or> \<not> isspace (hd v)"
    and "accepts inp rs v m P"
  shows "accepts inp (Atom Space ZeroOrMore # Atom (Lit c) One # Atom Space ZeroOrMore # rs)
           (w1 @ c # w2 @ v) m P"
proof -
  have "accepts inp (Atom Space ZeroOrMore # rs) (w2 @ v) m P"
    using assms(3,4,5) by (intro accepts_star) simp_all
  then have "accepts inp (Atom (Lit c) One # Atom Space ZeroOrMore # rs) (c # w2 @ v) m P"
    by (intro accepts_one) simp_all
  then show ?thesis using assms(1,2) by (intro accepts_star) simp_all
qed

lemma arrow_ok:
  assumes "list_all isspace w1" "list_all isspace w2" "v = [] \<or> \<not> isspace (hd v)"
    and "accepts inp rs v m P"
  shows "accepts inp (Atom Space ZeroOrMore # Atom (Lit CHR ''-'') One # Atom (Lit CHR ''>'') One #
                      Atom Space ZeroOrMore # rs)
           (w1 @ CHR ''-'' # CHR ''>'' # w2 @ v) m P"
proof -
  have "accepts inp (Atom Space ZeroOrMore # rs) (w2 @ v) m P"
    using assms(2,3,4) by (intro accepts_star) simp_all
  then have "accepts inp (Atom (Lit CHR ''-'') One # Atom (Lit CHR ''>'') One # Atom Space ZeroOrMore # rs)
               (CHR ''-'' # CHR ''>'' # w2 @ v) m P"
    by (simp add: accepts_def)
  then show ?thesis using assms(1) minus_not_space by (intro accepts_star) simp_all
qed

lemma sep_inv:
  assumes "rmatch inp (Atom Space ZeroOrMore # Atom (Lit c) One # Atom Space ZeroOrMore # rs) s m = Some G"
  shows "\<exists>w1 w2 v. s = w1 @ c # w2 @ v \<and> list_all isspace w1 \<and> list_all isspace w2 \<and>
           rmatch inp rs v m = Some G"
proof -
  from star_inv [OF assms] obtain w1 s1 where
    1: "s = w1 @ s1" "list_all isspace w1"
    and "rmatch inp (Atom (Lit c) One # Atom Space ZeroOrMore # rs) s1 m = Some G" by auto
  from one_inv [OF this(3)] obtain s2 where
    2: "s1 = c # s2" and "rmatch inp (Atom Space ZeroOrMore # rs) s2 m = Some G" by auto
  from star_inv [OF this(2)] obtain w2 v where
    3: "s2 = w2 @ v" "list_all isspace w2" "rmatch inp rs v m = Some G" by auto
  from 1 2 3 show ?thesis by blast
qed

lemma arrow_inv:
  assumes "rmatch inp (Atom Space ZeroOrMore # Atom (Lit CHR ''-'') One # Atom (Lit CHR ''>'') One #
                       Atom Space ZeroOrMore # rs) s m = Some G"
  shows "\<exists>w1 w2 v. s = w1 @ CHR ''-'' # CHR ''>'' # w2 @ v \<and> list_all isspace w1 \<and>
           list_all isspace w2 \<and> rmatch inp rs v m = Some G"
proof -
  from star_inv [OF assms] obtain w1 s1 where
    1: "s = w1 @ s1" "list_all isspace w1"
    and "rmatch inp (Atom (Lit CHR ''-'') One # Atom (Lit CHR ''>'') One #
                     Atom Space ZeroOrMore # rs) s1 m = Some G" by auto
  from one_inv [OF this(3)] obtain s2 where
    2: "s1 = CHR ''-'' # s2"
    and "rmatch inp (Atom (Lit CHR ''>'') One # Atom Space ZeroOrMore # rs) s2 m = Some G" by auto
  from one_inv [OF this(2)] obtain s3 where
    3: "s2 = CHR ''>'' # s3" and "rmatch inp (Atom Space ZeroOrMore # rs) s3 m = Some G" by auto
  from star_inv [OF this(2)] obtain w2 v where
    4: "s3 = w2 @ v" "list_all isspace w2" "rmatch inp rs v m = Some G" by auto
  from 1 2 3 4 show ?thesis by blast
qed

text \<open>The duration literal\<close>

lemma real_fail:
  "v = [] \<or> (\<not> isdigit (hd v) \<and> hd v \<noteq> CHR ''.'')
   \<Longrightarrow> rmatch inp (Atom (Range CHR ''0'' CHR ''9'') ZeroOrMore # Atom (Lit CHR ''.'') ZeroOrOne #
                   Atom (Range CHR ''0'' CHR ''9'') OneOrMore # rs) v m = None"
  using in_cset_range_digit by (cases v) auto

lemma real_nodot_ok:
  assumes "list_all isdigit ds" "ds \<noteq> []" "v = [] \<or> (\<not> isdigit (hd v) \<and> hd v \<noteq> CHR ''.'')"
    and "rmatch inp rs v m = Some G"
  shows "rmatch inp (Atom (Range CHR ''0'' CHR ''9'') ZeroOrMore # Atom (Lit CHR ''.'') ZeroOrOne #
                     Atom (Range CHR ''0'' CHR ''9'') OneOrMore # rs) (ds @ v) m = Some G"
  using assms(1,2)
proof (induction ds)
  case Nil
  then show ?case by simp
next
  case (Cons c ds)
  then have c: "isdigit c" "c \<noteq> CHR ''.''" using dot_not_digit by auto
  show ?case
  proof (cases "ds = []")
    case True
    have "rmatch inp (Atom (Range CHR ''0'' CHR ''9'') ZeroOrMore # rs) v m = Some G"
      using star_ok [of "Range CHR ''0'' CHR ''9''" "[]" v inp rs m G] assms(3,4)
      by (auto simp: in_cset_range_digit)
    with True c real_fail [OF assms(3), of inp rs m] show ?thesis
      by (simp add: in_cset_range_digit)
  next
    case False
    with Cons have "rmatch inp (Atom (Range CHR ''0'' CHR ''9'') ZeroOrMore # Atom (Lit CHR ''.'') ZeroOrOne #
                     Atom (Range CHR ''0'' CHR ''9'') OneOrMore # rs) (ds @ v) m = Some G" by simp
    with c show ?thesis by (simp add: in_cset_range_digit)
  qed
qed

lemma real_ok:
  assumes "real_lit r" "v = [] \<or> (\<not> isdigit (hd v) \<and> hd v \<noteq> CHR ''.'')"
    and "accepts inp rs v m P"
  shows "accepts inp (Atom (Range CHR ''0'' CHR ''9'') ZeroOrMore # Atom (Lit CHR ''.'') ZeroOrOne #
                      Atom (Range CHR ''0'' CHR ''9'') OneOrMore # rs) (r @ v) m P"
  using assms(1)
proof (cases rule: real_lit_cases)
  case (1 a b)
  have v: "v = [] \<or> \<not> isdigit (hd v)" using assms(2) by auto
  have "accepts inp (Atom (Range CHR ''0'' CHR ''9'') OneOrMore # rs) (b @ v) m P"
    using 1 v assms(3) by (intro accepts_plus) simp_all
  then have "accepts inp (Atom (Lit CHR ''.'') ZeroOrOne # Atom (Range CHR ''0'' CHR ''9'') OneOrMore # rs)
               (CHR ''.'' # b @ v) m P"
    by (intro accepts_opt_present) simp_all
  then have "accepts inp (Atom (Range CHR ''0'' CHR ''9'') ZeroOrMore # Atom (Lit CHR ''.'') ZeroOrOne #
               Atom (Range CHR ''0'' CHR ''9'') OneOrMore # rs) (a @ CHR ''.'' # b @ v) m P"
    using 1 dot_not_digit by (intro accepts_star) simp_all
  with 1 show ?thesis by simp
next
  case 2
  from assms(3) obtain G where "rmatch inp rs v m = Some G" "P G" by (auto simp: accepts_def)
  with real_nodot_ok [OF 2(2,1) assms(2)] show ?thesis by (auto simp: accepts_def)
qed

lemma real_lit_nodot: "list_all isdigit a \<Longrightarrow> a \<noteq> [] \<Longrightarrow> real_lit a"
proof -
  assume a: "list_all isdigit a" "a \<noteq> []"
  then have d: "dropWhile isdigit a = []" by (simp add: list_all_iff)
  show ?thesis unfolding real_lit_def d using a(2) by simp
qed

lemma real_lit_dot: "list_all isdigit a \<Longrightarrow> list_all isdigit b \<Longrightarrow> b \<noteq> [] \<Longrightarrow> real_lit (a @ CHR ''.'' # b)"
proof -
  assume a: "list_all isdigit a" "list_all isdigit b" "b \<noteq> []"
  have d: "dropWhile isdigit (a @ CHR ''.'' # b) = CHR ''.'' # b"
    using a(1) dot_not_digit by (rule dropWhile_stop)
  show ?thesis unfolding real_lit_def d using a(2,3) by simp
qed

lemma real_inv:
  assumes "rmatch inp (Atom (Range CHR ''0'' CHR ''9'') ZeroOrMore # Atom (Lit CHR ''.'') ZeroOrOne #
                       Atom (Range CHR ''0'' CHR ''9'') OneOrMore # rs) s m = Some G"
  shows "\<exists>r v. s = r @ v \<and> real_lit r \<and> rmatch inp rs v m = Some G"
proof -
  from star_inv [OF assms] obtain a s1 where
    1: "s = a @ s1" "list_all isdigit a"
    and "rmatch inp (Atom (Lit CHR ''.'') ZeroOrOne # Atom (Range CHR ''0'' CHR ''9'') OneOrMore # rs) s1 m = Some G"
    by auto
  from opt_inv [OF this(3)] obtain u s2 where
    2: "s1 = u @ s2" "u = [] \<or> u = [CHR ''.'']"
    and "rmatch inp (Atom (Range CHR ''0'' CHR ''9'') OneOrMore # rs) s2 m = Some G" by auto
  from plus_inv [OF this(3)] obtain b v where
    3: "s2 = b @ v" "b \<noteq> []" "list_all isdigit b" "rmatch inp rs v m = Some G" by auto
  from 2(2) show ?thesis
  proof
    assume "u = []"
    moreover have "real_lit (a @ b)" using 1(2) 3(2,3) by (intro real_lit_nodot) simp_all
    ultimately show ?thesis using 1 2 3 by (intro exI [of _ "a @ b"] exI [of _ v]) simp
  next
    assume "u = [CHR ''.'']"
    moreover have "real_lit (a @ CHR ''.'' # b)" using 1(2) 3(2,3) by (intro real_lit_dot)
    ultimately show ?thesis using 1 2 3 by (intro exI [of _ "a @ CHR ''.'' # b"] exI [of _ v]) simp
  qed
qed

subsection \<open>The end of the drag pattern\<close>

lemma newline_space: "isspace (CHR 0x0A)"
  by (simp add: isspace_def)

lemma real_lit_hd: "real_lit r \<Longrightarrow> r \<noteq> [] \<and> \<not> isspace (hd r) \<and> isdigit (last r)"
proof (erule real_lit_cases)
  fix a b assume r: "r = a @ CHR ''.'' # b" "list_all isdigit a" "list_all isdigit b" "b \<noteq> []"
  have "\<not> isspace (hd r)" using r(1,2) digit_not_space dot_not_space by (cases a) auto
  moreover have "isdigit (last r)" using r last_in_set [of b] by (simp add: list_all_iff)
  ultimately show ?thesis using r(1) by simp
next
  assume "r \<noteq> []" "list_all isdigit r"
  then show ?thesis
    using last_in_set [of r] hd_in_set [of r] digit_not_space [of "hd r"] by (simp add: list_all_iff)
qed

lemma tail_ok_none:
  "P m \<Longrightarrow> accepts inp [dur_group, Atom Space ZeroOrMore, Eol] [] m P"
  by (simp add: accepts_def dur_group_def)

lemma tail_ok_some:
  assumes "list_all isspace w7" "list_all isspace w8" "real_lit r"
    and "\<And>m'. groups m' = (groups m)(5 \<mapsto> r) \<Longrightarrow> P m'"
  shows "accepts inp [dur_group, Atom Space ZeroOrMore, Eol] (w7 @ CHR '','' # w8 @ r) m P"
proof -
  let ?rs = "[Atom Space ZeroOrMore, Eol]"
  have e: "\<And>m1. starts m1 5 = r \<Longrightarrow> groups m1 = groups m \<Longrightarrow> accepts inp (Close 5 # ?rs) [] m1 P"
    using assms(4) by (simp add: accepts_def)
  have "\<And>m1. starts m1 5 = r \<Longrightarrow> groups m1 = groups m \<Longrightarrow>
      accepts inp (Atom (Range CHR ''0'' CHR ''9'') ZeroOrMore # Atom (Lit CHR ''.'') ZeroOrOne #
                   Atom (Range CHR ''0'' CHR ''9'') OneOrMore # Close 5 # ?rs) (r @ []) m1 P"
    using assms(3) by (intro real_ok e) simp_all
  then have "accepts inp (Open 5 # Atom (Range CHR ''0'' CHR ''9'') ZeroOrMore # Atom (Lit CHR ''.'') ZeroOrOne #
                   Atom (Range CHR ''0'' CHR ''9'') OneOrMore # Close 5 # ?rs) r m P"
    by (intro accepts_open) simp
  then have "accepts inp (Atom Space ZeroOrMore # Atom (Lit CHR '','') One # Atom Space ZeroOrMore #
                   Open 5 # Atom (Range CHR ''0'' CHR ''9'') ZeroOrMore # Atom (Lit CHR ''.'') ZeroOrOne #
                   Atom (Range CHR ''0'' CHR ''9'') OneOrMore # Close 5 # ?rs) (w7 @ CHR '','' # w8 @ r) m P"
    using assms(1,2) real_lit_hd [OF assms(3)] comma_not_space by (intro sep_ok) simp_all
  then show ?thesis unfolding dur_group_def by (intro accepts_optgroup) simp
qed

lemma tail_inv:
  assumes "rmatch inp [dur_group, Atom Space ZeroOrMore, Eol] s m = Some G"
  shows "\<exists>t w9. s = t @ w9 \<and> list_all isspace w9 \<and>
           ((t = [] \<and> groups G = groups m) \<or>
            (\<exists>w7 w8 r. list_all isspace w7 \<and> list_all isspace w8 \<and> real_lit r \<and>
                       t = w7 @ CHR '','' # w8 @ r \<and> groups G = (groups m)(5 \<mapsto> r)))"
proof -
  let ?rs = "[Atom Space ZeroOrMore, Eol]"
  let ?g = "[Atom Space ZeroOrMore, Atom (Lit CHR '','') One, Atom Space ZeroOrMore,
             Open 5, Atom (Range CHR ''0'' CHR ''9'') ZeroOrMore, Atom (Lit CHR ''.'') ZeroOrOne,
             Atom (Range CHR ''0'' CHR ''9'') OneOrMore, Close 5]"
  have fin: "\<exists>w9. v = w9 \<and> list_all isspace w9 \<and> G' = m'"
    if "rmatch inp ?rs v m' = Some G'" for v m' G'
  proof -
    from star_inv [OF that] obtain w x where
      "v = w @ x" "list_all isspace w" "rmatch inp [Eol] x m' = Some G'" by auto
    then show ?thesis using newline_space by (auto split: if_splits)
  qed
  from assms have "rmatch inp (?g @ ?rs) s m = Some G \<or> rmatch inp ?rs s m = Some G"
    by (auto simp: dur_group_def split: option.splits)
  then show ?thesis
  proof
    assume "rmatch inp ?rs s m = Some G"
    from fin [OF this] show ?thesis by (intro exI [of _ "[]"] exI [of _ s]) simp
  next
    assume "rmatch inp (?g @ ?rs) s m = Some G"
    then have "rmatch inp (Atom Space ZeroOrMore # Atom (Lit CHR '','') One # Atom Space ZeroOrMore #
                 Open 5 # Atom (Range CHR ''0'' CHR ''9'') ZeroOrMore # Atom (Lit CHR ''.'') ZeroOrOne #
                 Atom (Range CHR ''0'' CHR ''9'') OneOrMore # Close 5 # ?rs) s m = Some G" by simp
    from sep_inv [OF this] obtain w7 w8 s1 where
      1: "s = w7 @ CHR '','' # w8 @ s1" "list_all isspace w7" "list_all isspace w8"
      and "rmatch inp (Open 5 # Atom (Range CHR ''0'' CHR ''9'') ZeroOrMore # Atom (Lit CHR ''.'') ZeroOrOne #
                 Atom (Range CHR ''0'' CHR ''9'') OneOrMore # Close 5 # ?rs) s1 m = Some G" by blast
    then have "rmatch inp (Atom (Range CHR ''0'' CHR ''9'') ZeroOrMore # Atom (Lit CHR ''.'') ZeroOrOne #
                 Atom (Range CHR ''0'' CHR ''9'') OneOrMore # Close 5 # ?rs) s1
                 (m\<lparr>starts := (starts m)(5 := s1)\<rparr>) = Some G" by simp
    from real_inv [OF this] obtain r v where
      2: "s1 = r @ v" "real_lit r"
      and "rmatch inp (Close 5 # ?rs) v (m\<lparr>starts := (starts m)(5 := s1)\<rparr>) = Some G" by blast
    then have "rmatch inp ?rs v (m\<lparr>starts := (starts m)(5 := s1), groups := (groups m)(5 \<mapsto> r)\<rparr>) = Some G"
      by simp
    from fin [OF this] have 3: "list_all isspace v" "groups G = (groups m)(5 \<mapsto> r)" by auto
    from 1 2 3 show ?thesis
      by (intro exI [of _ "w7 @ CHR '','' # w8 @ r"] exI [of _ v]) auto
  qed
qed

subsection \<open>The drag pattern and the drag grammar\<close>

lemma drag_coreI:
  assumes "int_lit a" "int_lit b" "int_lit c" "int_lit d"
    and "list_all isspace w1" "list_all isspace w2" "list_all isspace w3"
        "list_all isspace w4" "list_all isspace w5" "list_all isspace w6"
    and "case dur of None \<Rightarrow> t = []
         | Some r \<Rightarrow> real_lit r \<and> (\<exists>w7 w8. list_all isspace (w7 @ w8) \<and> t = w7 @ '','' @ w8 @ r)"
  shows "drag_core (a @ w1 @ CHR '','' # w2 @ b @ w3 @ CHR ''-'' # CHR ''>'' # w4 @ c @ w5 @ CHR '','' # w6 @ d @ t)
           a b c d dur"
proof -
  have "\<exists>w1' w2' w3' w4' w5' w6' t'.
        list_all isspace (w1' @ w2' @ w3' @ w4' @ w5' @ w6') \<and>
        a @ w1 @ CHR '','' # w2 @ b @ w3 @ CHR ''-'' # CHR ''>'' # w4 @ c @ w5 @ CHR '','' # w6 @ d @ t
          = a @ w1' @ '','' @ w2' @ b @ w3' @ ''->'' @ w4' @ c @ w5' @ '','' @ w6' @ d @ t' \<and>
        (case dur of
           None \<Rightarrow> t' = []
         | Some r \<Rightarrow> real_lit r \<and> (\<exists>w7 w8. list_all isspace (w7 @ w8) \<and> t' = w7 @ '','' @ w8 @ r))"
    using assms(5-11)
    by (rule_tac exI [of _ w1], rule_tac exI [of _ w2], rule_tac exI [of _ w3], rule_tac exI [of _ w4],
        rule_tac exI [of _ w5], rule_tac exI [of _ w6], rule_tac exI [of _ t]) simp
  with assms(1-4) show ?thesis unfolding drag_core_def by blast
qed

lemma drag_grammarI:
  assumes "list_all isspace w0" "list_all isspace w9" "drag_core s a b c d dur"
  shows "drag_grammar (w0 @ s @ w9) a b c d dur"
  unfolding drag_grammar_def using assms
  by (rule_tac exI [of _ w0], rule_tac exI [of _ s], rule_tac exI [of _ w9]) simp

lemma drag_line_re_shape:
  "drag_line_re =
     Bol # Atom Space ZeroOrMore # int_group 1 @
     (Atom Space ZeroOrMore # Atom (Lit CHR '','') One # Atom Space ZeroOrMore # int_group 2 @
     (Atom Space ZeroOrMore # Atom (Lit CHR ''-'') One # Atom (Lit CHR ''>'') One #
      Atom Space ZeroOrMore # int_group 3 @
     (Atom Space ZeroOrMore # Atom (Lit CHR '','') One # Atom Space ZeroOrMore # int_group 4 @
      [dur_group, Atom Space ZeroOrMore, Eol])))"
  by (simp add: drag_line_re_def)

lemma drag_core_match:
  assumes "drag_core s a b c d dur"
  shows "\<exists>g. re_match drag_line_re s = Some g \<and> map g [1, 2, 3, 4, 5] = [Some a, Some b, Some c, Some d, dur]"
proof -
  from assms have ints: "int_lit a" "int_lit b" "int_lit c" "int_lit d"
    by (simp_all add: drag_core_def)
  from assms obtain w1 w2 w3 w4 w5 w6 t where
    w: "list_all isspace (w1 @ w2 @ w3 @ w4 @ w5 @ w6)"
    and s0: "s = a @ w1 @ '','' @ w2 @ b @ w3 @ ''->'' @ w4 @ c @ w5 @ '','' @ w6 @ d @ t"
    and tl: "case dur of None \<Rightarrow> t = []
             | Some r \<Rightarrow> real_lit r \<and> (\<exists>w7 w8. list_all isspace (w7 @ w8) \<and> t = w7 @ '','' @ w8 @ r)"
    unfolding drag_core_def by blast
  from w have ws: "list_all isspace w1" "list_all isspace w2" "list_all isspace w3"
            "list_all isspace w4" "list_all isspace w5" "list_all isspace w6" by simp_all
  from s0 have s: "s = a @ w1 @ CHR '','' # w2 @ b @ w3 @ CHR ''-'' # CHR ''>'' # w4 @ c @ w5 @ CHR '','' # w6 @ d @ t"
    by simp
  let ?P = "\<lambda>G. map (groups G) [1, 2, 3, 4, 5] = [Some a, Some b, Some c, Some d, dur]"
  let ?T = "[dur_group, Atom Space ZeroOrMore, Eol]"
  let ?R4 = "Atom Space ZeroOrMore # Atom (Lit CHR '','') One # Atom Space ZeroOrMore # int_group 4 @ ?T"
  let ?R3 = "Atom Space ZeroOrMore # Atom (Lit CHR ''-'') One # Atom (Lit CHR ''>'') One #
             Atom Space ZeroOrMore # int_group 3 @ ?R4"
  let ?R2 = "Atom Space ZeroOrMore # Atom (Lit CHR '','') One # Atom Space ZeroOrMore # int_group 2 @ ?R3"
  have ht: "t = [] \<or> \<not> isdigit (hd t)"
  proof (cases dur)
    case None
    with tl show ?thesis by simp
  next
    case (Some r)
    with tl obtain w7 w8 where "list_all isspace w7" "t = w7 @ CHR '','' # w8 @ r" by auto
    then show ?thesis using hd_ws_not_digit [of w7 "CHR '',''"] comma_not_digit by simp
  qed
  have T: "accepts inp ?T t m ?P"
    if "map (groups m) [1, 2, 3, 4, 5] = [Some a, Some b, Some c, Some d, None]" for m inp
  proof (cases dur)
    case None
    with tl have "t = []" by simp
    with that None show ?thesis by (simp add: tail_ok_none)
  next
    case (Some r)
    with tl obtain w7 w8 where w: "list_all isspace w7" "list_all isspace w8" "real_lit r"
      "t = w7 @ CHR '','' # w8 @ r" by auto
    show ?thesis unfolding w(4) using w(1,2,3)
    proof (rule tail_ok_some)
      fix m' :: mstate assume "groups m' = (groups m)(5 \<mapsto> r)"
      with that Some show "?P m'" by simp
    qed
  qed
  have S4: "accepts inp (int_group 4 @ ?T) (d @ t) m ?P"
    if "map (groups m) [1, 2, 3, 4, 5] = [Some a, Some b, Some c, None, None]" for m inp
    using ints(4) ht
  proof (rule int_group_ok')
    fix m' :: mstate assume "groups m' = (groups m)(4 \<mapsto> d)"
    with that show "accepts inp ?T t m' ?P" by (intro T) simp
  qed
  have S4': "accepts inp ?R4 (w5 @ CHR '','' # w6 @ d @ t) m ?P"
    if "map (groups m) [1, 2, 3, 4, 5] = [Some a, Some b, Some c, None, None]" for m inp
    using comma_not_space ws(5,6) int_lit_ends [OF ints(4)] S4 [OF that]
    by (intro sep_ok) simp_all
  have S3: "accepts inp (int_group 3 @ ?R4) (c @ w5 @ CHR '','' # w6 @ d @ t) m ?P"
    if "map (groups m) [1, 2, 3, 4, 5] = [Some a, Some b, None, None, None]" for m inp
    using ints(3)
  proof (rule int_group_ok')
    show "w5 @ CHR '','' # w6 @ d @ t = [] \<or> \<not> isdigit (hd (w5 @ CHR '','' # w6 @ d @ t))"
      using hd_ws_not_digit [OF ws(5) comma_not_digit] by simp
    fix m' :: mstate assume "groups m' = (groups m)(3 \<mapsto> c)"
    with that show "accepts inp ?R4 (w5 @ CHR '','' # w6 @ d @ t) m' ?P" by (intro S4') simp
  qed
  have S3': "accepts inp ?R3 (w3 @ CHR ''-'' # CHR ''>'' # w4 @ c @ w5 @ CHR '','' # w6 @ d @ t) m ?P"
    if "map (groups m) [1, 2, 3, 4, 5] = [Some a, Some b, None, None, None]" for m inp
    using ws(3,4) int_lit_ends [OF ints(3)] S3 [OF that]
    by (intro arrow_ok) simp_all
  have S2: "accepts inp (int_group 2 @ ?R3)
              (b @ w3 @ CHR ''-'' # CHR ''>'' # w4 @ c @ w5 @ CHR '','' # w6 @ d @ t) m ?P"
    if "map (groups m) [1, 2, 3, 4, 5] = [Some a, None, None, None, None]" for m inp
    using ints(2)
  proof (rule int_group_ok')
    show "w3 @ CHR ''-'' # CHR ''>'' # w4 @ c @ w5 @ CHR '','' # w6 @ d @ t = [] \<or>
          \<not> isdigit (hd (w3 @ CHR ''-'' # CHR ''>'' # w4 @ c @ w5 @ CHR '','' # w6 @ d @ t))"
      using hd_ws_not_digit [OF ws(3) minus_not_digit] by simp
    fix m' :: mstate assume "groups m' = (groups m)(2 \<mapsto> b)"
    with that show "accepts inp ?R3 (w3 @ CHR ''-'' # CHR ''>'' # w4 @ c @ w5 @ CHR '','' # w6 @ d @ t) m' ?P"
      by (intro S3') simp
  qed
  have S2': "accepts inp ?R2
               (w1 @ CHR '','' # w2 @ b @ w3 @ CHR ''-'' # CHR ''>'' # w4 @ c @ w5 @ CHR '','' # w6 @ d @ t) m ?P"
    if "map (groups m) [1, 2, 3, 4, 5] = [Some a, None, None, None, None]" for m inp
    using comma_not_space ws(1,2) int_lit_ends [OF ints(2)] S2 [OF that]
    by (intro sep_ok) simp_all
  have S1: "accepts inp (int_group 1 @ ?R2) s m ?P"
    if "map (groups m) [1, 2, 3, 4, 5] = [None, None, None, None, None]" for m inp
    unfolding s using ints(1)
  proof (rule int_group_ok')
    show "w1 @ CHR '','' # w2 @ b @ w3 @ CHR ''-'' # CHR ''>'' # w4 @ c @ w5 @ CHR '','' # w6 @ d @ t = [] \<or>
          \<not> isdigit (hd (w1 @ CHR '','' # w2 @ b @ w3 @ CHR ''-'' # CHR ''>'' # w4 @ c @ w5 @ CHR '','' # w6 @ d @ t))"
      using hd_ws_not_digit [OF ws(1) comma_not_digit] by simp
    fix m' :: mstate assume "groups m' = (groups m)(1 \<mapsto> a)"
    with that show "accepts inp ?R2
        (w1 @ CHR '','' # w2 @ b @ w3 @ CHR ''-'' # CHR ''>'' # w4 @ c @ w5 @ CHR '','' # w6 @ d @ t) m' ?P"
      by (intro S2') simp
  qed
  have "\<not> isspace (hd s)" using int_lit_ends [OF ints(1)] by (simp add: s)
  then have "accepts s (Atom Space ZeroOrMore # int_group 1 @ ?R2) s mstate0 ?P"
    by (intro accepts_star_nil S1) (simp_all add: mstate0_def)
  then have "accepts s drag_line_re s mstate0 ?P"
    unfolding drag_line_re_shape by (rule accepts_bol)
  then show ?thesis by (auto simp: accepts_def re_match_def)
qed

lemma match_drag_grammar:
  assumes "re_match drag_line_re s = Some g"
  shows "\<exists>a b c d dur. drag_grammar s a b c d dur \<and>
           map g [1, 2, 3, 4, 5] = [Some a, Some b, Some c, Some d, dur]"
proof -
  let ?T = "[dur_group, Atom Space ZeroOrMore, Eol]"
  let ?R4 = "Atom Space ZeroOrMore # Atom (Lit CHR '','') One # Atom Space ZeroOrMore # int_group 4 @ ?T"
  let ?R3 = "Atom Space ZeroOrMore # Atom (Lit CHR ''-'') One # Atom (Lit CHR ''>'') One #
             Atom Space ZeroOrMore # int_group 3 @ ?R4"
  let ?R2 = "Atom Space ZeroOrMore # Atom (Lit CHR '','') One # Atom Space ZeroOrMore # int_group 2 @ ?R3"
  from assms obtain G where g: "g = groups G" and "rmatch s drag_line_re s mstate0 = Some G"
    by (auto simp: re_match_def)
  then have "rmatch s (Atom Space ZeroOrMore # int_group 1 @ ?R2) s mstate0 = Some G"
    by (simp add: drag_line_re_shape)
  from star_inv [OF this] obtain w0 s1 where
    0: "s = w0 @ s1" "list_all isspace w0" and "rmatch s (int_group 1 @ ?R2) s1 mstate0 = Some G" by auto
  from int_group_inv' [OF this(3)] obtain a s2 m1 where
    1: "s1 = a @ s2" "int_lit a" "groups m1 = (groups mstate0)(1 \<mapsto> a)"
    and "rmatch s ?R2 s2 m1 = Some G" by blast
  from sep_inv [OF this(4)] obtain w1 w2 s3 where
    2: "s2 = w1 @ CHR '','' # w2 @ s3" "list_all isspace w1" "list_all isspace w2"
    and "rmatch s (int_group 2 @ ?R3) s3 m1 = Some G" by blast
  from int_group_inv' [OF this(4)] obtain b s4 m2 where
    3: "s3 = b @ s4" "int_lit b" "groups m2 = (groups m1)(2 \<mapsto> b)"
    and "rmatch s ?R3 s4 m2 = Some G" by blast
  from arrow_inv [OF this(4)] obtain w3 w4 s5 where
    4: "s4 = w3 @ CHR ''-'' # CHR ''>'' # w4 @ s5" "list_all isspace w3" "list_all isspace w4"
    and "rmatch s (int_group 3 @ ?R4) s5 m2 = Some G" by blast
  from int_group_inv' [OF this(4)] obtain c s6 m3 where
    5: "s5 = c @ s6" "int_lit c" "groups m3 = (groups m2)(3 \<mapsto> c)"
    and "rmatch s ?R4 s6 m3 = Some G" by blast
  from sep_inv [OF this(4)] obtain w5 w6 s7 where
    6: "s6 = w5 @ CHR '','' # w6 @ s7" "list_all isspace w5" "list_all isspace w6"
    and "rmatch s (int_group 4 @ ?T) s7 m3 = Some G" by blast
  from int_group_inv' [OF this(4)] obtain d s8 m4 where
    7: "s7 = d @ s8" "int_lit d" "groups m4 = (groups m3)(4 \<mapsto> d)"
    and "rmatch s ?T s8 m4 = Some G" by blast
  from tail_inv [OF this(4)] obtain t w9 where
    8: "s8 = t @ w9" "list_all isspace w9"
    and tl: "(t = [] \<and> groups G = groups m4) \<or>
            (\<exists>w7 w8 r. list_all isspace w7 \<and> list_all isspace w8 \<and> real_lit r \<and>
                       t = w7 @ CHR '','' # w8 @ r \<and> groups G = (groups m4)(5 \<mapsto> r))" by blast
  let ?core = "a @ w1 @ CHR '','' # w2 @ b @ w3 @ CHR ''-'' # CHR ''>'' # w4 @ c @ w5 @ CHR '','' # w6 @ d @ t"
  have line: "s = w0 @ ?core @ w9" using 0 1 2 3 4 5 6 7 8 by simp
  note ints = 1(2) 3(2) 5(2) 7(2)
  note ws = 2(2,3) 4(2,3) 6(2,3)
  have g4: "map (groups m4) [1, 2, 3, 4, 5] = [Some a, Some b, Some c, Some d, None]"
    using 1(3) 3(3) 5(3) 7(3) by (simp add: mstate0_def)
  from tl show ?thesis
  proof
    assume t: "t = [] \<and> groups G = groups m4"
    have "case None of None \<Rightarrow> t = []
          | Some r \<Rightarrow> real_lit r \<and> (\<exists>w7 w8. list_all isspace (w7 @ w8) \<and> t = w7 @ '','' @ w8 @ r)"
      using t by simp
    with ints ws have "drag_core ?core a b c d None" by (rule drag_coreI)
    with 0(2) 8(2) have "drag_grammar (w0 @ ?core @ w9) a b c d None" by (rule drag_grammarI)
    then have "drag_grammar s a b c d None" by (simp only: line)
    moreover have "map g [1, 2, 3, 4, 5] = [Some a, Some b, Some c, Some d, None]"
      using g4 t g by simp
    ultimately show ?thesis
      by (rule_tac exI [of _ a], rule_tac exI [of _ b], rule_tac exI [of _ c], rule_tac exI [of _ d],
          rule_tac exI [of _ None]) simp
  next
    assume "\<exists>w7 w8 r. list_all isspace w7 \<and> list_all isspace w8 \<and> real_lit r \<and>
                       t = w7 @ CHR '','' # w8 @ r \<and> groups G = (groups m4)(5 \<mapsto> r)"
    then obtain w7 w8 r where t: "list_all isspace w7" "list_all isspace w8" "real_lit r"
      "t = w7 @ CHR '','' # w8 @ r" "groups G = (groups m4)(5 \<mapsto> r)" by blast
    have "\<exists>w7 w8. list_all isspace (w7 @ w8) \<and> t = w7 @ '','' @ w8 @ r"
      using t(1,2,4) by (intro exI [of _ w7] exI [of _ w8]) simp
    with t(3) have "case Some r of None \<Rightarrow> t = []
          | Some r \<Rightarrow> real_lit r \<and> (\<exists>w7 w8. list_all isspace (w7 @ w8) \<and> t = w7 @ '','' @ w8 @ r)"
      by simp
    with ints ws have "drag_core ?core a b c d (Some r)" by (rule drag_coreI)
    with 0(2) 8(2) have "drag_grammar (w0 @ ?core @ w9) a b c d (Some r)" by (rule drag_grammarI)
    then have "drag_grammar s a b c d (Some r)" by (simp only: line)
    moreover have "map g [1, 2, 3, 4, 5] = [Some a, Some b, Some c, Some d, Some r]"
      using g4 t(5) g by simp
    ultimately show ?thesis
      by (rule_tac exI [of _ a], rule_tac exI [of _ b], rule_tac exI [of _ c], rule_tac exI [of _ d],
          rule_tac exI [of _ "Some r"]) simp
  qed
qed

subsection \<open>The keyword test\<close>

lemma upper_other: "c \<notin> set ''abcdefghijklmnopqrstuvwxyz'' \<Longrightarrow> upper c = c"
proof -
  assume "c \<notin> set ''abcdefghijklmnopqrstuvwxyz''"
  then have "map_of (zip ''abcdefghijklmnopqrstuvwxyz'' ''ABCDEFGHIJKLMNOPQRSTUVWXYZ'') c = None"
    by (subst map_of_zip_is_None) simp_all
  then show ?thesis by (simp only: upper_def option.case)
qed

lemma lower_other: "c \<notin> set ''ABCDEFGHIJKLMNOPQRSTUVWXYZ'' \<Longrightarrow> lower c = c"
proof -
  assume "c \<notin> set ''ABCDEFGHIJKLMNOPQRSTUVWXYZ''"
  then have "map_of (zip ''ABCDEFGHIJKLMNOPQRSTUVWXYZ'' ''abcdefghijklmnopqrstuvwxyz'') c = None"
    by (subst map_of_zip_is_None) simp_all
  then show ?thesis by (simp only: lower_def option.case)
qed

lemma upper_letters:
  "\<forall>c \<in> set ''abcdefghijklmnopqrstuvwxyz''.
     (upper c = CHR ''S'' \<longleftrightarrow> c = CHR ''s'') \<and> (upper c = CHR ''L'' \<longleftrightarrow> c = CHR ''l'') \<and>
     (upper c = CHR ''E'' \<longleftrightarrow> c = CHR ''e'') \<and> (upper c = CHR ''P'' \<longleftrightarrow> c = CHR ''p'')"
  by (simp add: upper_def)

lemma lower_letters:
  "\<forall>c \<in> set ''ABCDEFGHIJKLMNOPQRSTUVWXYZ''.
     (lower c = CHR ''s'' \<longleftrightarrow> c = CHR ''S'') \<and> (lower c = CHR ''l'' \<longleftrightarrow> c = CHR ''L'') \<and>
     (lower c = CHR ''e'' \<longleftrightarrow> c = CHR ''E'') \<and> (lower c = CHR ''p'' \<longleftrightarrow> c = CHR ''P'')"
  by (simp add: lower_def)

lemma upper_S: "upper c = CHR ''S'' \<longleftrightarrow> c = CHR ''s'' \<or> c = CHR ''S''"
  and upper_L: "upper c = CHR ''L'' \<longleftrightarrow> c = CHR ''l'' \<or> c = CHR ''L''"
  and upper_E: "upper c = CHR ''E'' \<longleftrightarrow> c = CHR ''e'' \<or> c = CHR ''E''"
  and upper_P: "upper c = CHR ''P'' \<longleftrightarrow> c = CHR ''p'' \<or> c = CHR ''P''"
proof -
  show "upper c = CHR ''S'' \<longleftrightarrow> c = CHR ''s'' \<or> c = CHR ''S''"
  proof (cases "c \<in> set ''abcdefghijklmnopqrstuvwxyz''")
    case True
    with upper_letters have "upper c = CHR ''S'' \<longleftrightarrow> c = CHR ''s''" by blast
    moreover from True have "c \<noteq> CHR ''S''" by auto
    ultimately show ?thesis by simp
  next
    case False
    then have "upper c = c" by (rule upper_other)
    moreover from False have "c \<noteq> CHR ''s''" by auto
    ultimately show ?thesis by simp
  qed
  show "upper c = CHR ''L'' \<longleftrightarrow> c = CHR ''l'' \<or> c = CHR ''L''"
  proof (cases "c \<in> set ''abcdefghijklmnopqrstuvwxyz''")
    case True
    with upper_letters have "upper c = CHR ''L'' \<longleftrightarrow> c = CHR ''l''" by blast
    moreover from True have "c \<noteq> CHR ''L''" by auto
    ultimately show ?thesis by simp
  next
    case False
    then have "upper c = c" by (rule upper_other)
    moreover from False have "c \<noteq> CHR ''l''" by auto
    ultimately show ?thesis by simp
  qed
  show "upper c = CHR ''E'' \<longleftrightarrow> c = CHR ''e'' \<or> c = CHR ''E''"
  proof (cases "c \<in> set ''abcdefghijklmnopqrstuvwxyz''")
    case True
    with upper_letters have "upper c = CHR ''E'' \<longleftrightarrow> c = CHR ''e''" by blast
    moreover from True have "c \<noteq> CHR ''E''" by auto
    ultimately show ?thesis by simp
  next
    case False
    then have "upper c = c" by (rule upper_other)
    moreover from False have "c \<noteq> CHR ''e''" by auto
    ultimately show ?thesis by simp
  qed
  show "upper c = CHR ''P'' \<longleftrightarrow> c = CHR ''p'' \<or> c = CHR ''P''"
  proof (cases "c \<in> set ''abcdefghijklmnopqrstuvwxyz''")
    case True
    with upper_letters have "upper c = CHR ''P'' \<longleftrightarrow> c = CHR ''p''" by blast
    moreover from True have "c \<noteq> CHR ''P''" by auto
    ultimately show ?thesis by simp
  next
    case False
    then have "upper c = c" by (rule upper_other)
    moreover from False have "c \<noteq> CHR ''p''" by auto
    ultimately show ?thesis by simp
  qed
qed

lemma lower_s: "lower c = CHR ''s'' \<longleftrightarrow> c = CHR ''s'' \<or> c = CHR ''S''"
  and lower_l: "lower c = CHR ''l'' \<longleftrightarrow> c = CHR ''l'' \<or> c = CHR ''L''"
  and lower_e: "lower c = CHR ''e'' \<longleftrightarrow> c = CHR ''e'' \<or> c = CHR ''E''"
  and lower_p: "lower c = CHR ''p'' \<longleftrightarrow> c = CHR ''p'' \<or> c = CHR ''P''"
proof -
  show "lower c = CHR ''s'' \<longleftrightarrow> c = CHR ''s'' \<or> c = CHR ''S''"
  proof (cases "c \<in> set ''ABCDEFGHIJKLMNOPQRSTUVWXYZ''")
    case True
    with lower_letters have "lower c = CHR ''s'' \<longleftrightarrow> c = CHR ''S''" by blast
    moreover from True have "c \<noteq> CHR ''s''" by auto
    ultimately show ?thesis by simp
  next
    case False
    then have "lower c = c" by (rule lower_other)
    moreover from False have "c \<noteq> CHR ''S''" by auto
    ultimately show ?thesis by simp
  qed
  show "lower c = CHR ''l'' \<longleftrightarrow> c = CHR ''l'' \<or> c = CHR ''L''"
  proof (cases "c \<in> set ''ABCDEFGHIJKLMNOPQRSTUVWXYZ''")
    case True
    with lower_letters have "lower c = CHR ''l'' \<longleftrightarrow> c = CHR ''L''" by blast
    moreover from True have "c \<noteq> CHR ''l''" by auto
    ultimately show ?thesis by simp
  next
    case False
    then have "lower c = c" by (rule lower_other)
    moreover from False have "c \<noteq> CHR ''L''" by auto
    ultimately show ?thesis by simp
  qed
  show "lower c = CHR ''e'' \<longleftrightarrow> c = CHR ''e'' \<or> c = CHR ''E''"
  proof (cases "c \<in> set ''ABCDEFGHIJKLMNOPQRSTUVWXYZ''")
    case True
    with lower_letters have "lower c = CHR ''e'' \<longleftrightarrow> c = CHR ''E''" by blast
    moreover from True have "c \<noteq> CHR ''e''" by auto
    ultimately show ?thesis by simp
  next
    case False
    then have "lower c = c" by (rule lower_other)
    moreover from False have "c \<noteq> CHR ''E''" by auto
    ultimately show ?thesis by simp
  qed
  show "lower c = CHR ''p'' \<longleftrightarrow> c = CHR ''p'' \<or> c = CHR ''P''"
  proof (cases "c \<in> set ''ABCDEFGHIJKLMNOPQRSTUVWXYZ''")
    case True
    with lower_letters have "lower c = CHR ''p'' \<longleftrightarrow> c = CHR ''P''" by blast
    moreover from True have "c \<noteq> CHR ''p''" by auto
    ultimately show ?thesis by simp
  next
    case False
    then have "lower c = c" by (rule lower_other)
    moreover from False have "c \<noteq> CHR ''P''" by auto
    ultimately show ?thesis by simp
  qed
qed

lemmas sleep_letters = upper_S upper_L upper_E upper_P lower_s lower_l lower_e lower_p

lemma upper_sleep_iff: "map upper k = ''SLEEP'' \<longleftrightarrow> map lower k = ''sleep''"
  by (simp add: map_eq_Cons_conv sleep_letters)

lemma startswith_sleep: "startswith (map upper line) ''SLEEP'' \<longleftrightarrow> begins_ci line ''SLEEP''"
proof -
  have l: "map lower ''SLEEP'' = ''sleep''" by (simp add: lower_def)
  have "startswith (map upper line) ''SLEEP'' \<longleftrightarrow> map upper (take (length ''SLEEP'') line) = ''SLEEP''"
    by (simp only: startswith_def take_map)
  also have "\<dots> \<longleftrightarrow> map lower (take (length ''SLEEP'') line) = ''sleep''" by (rule upper_sleep_iff)
  also have "\<dots> \<longleftrightarrow> begins_ci line ''SLEEP''" by (simp only: begins_ci_def l)
  finally show ?thesis .
qed

lemma sleep_kw_chars:
  assumes "map upper k = ''SLEEP''"
  shows "length k = 5 \<and> list_all (\<lambda>c. \<not> isspace c) k \<and> hd k \<noteq> CHR ''#''"
proof -
  have sp: "\<not> isspace CHR ''s''" "\<not> isspace CHR ''S''" "\<not> isspace CHR ''l''" "\<not> isspace CHR ''L''"
    "\<not> isspace CHR ''e''" "\<not> isspace CHR ''E''" "\<not> isspace CHR ''p''" "\<not> isspace CHR ''P''"
    by (simp_all add: isspace_def)
  from assms obtain c1 c2 c3 c4 c5 where k: "k = [c1, c2, c3, c4, c5]"
    "upper c1 = CHR ''S''" "upper c2 = CHR ''L''" "upper c3 = CHR ''E''" "upper c4 = CHR ''E''"
    "upper c5 = CHR ''P''"
    by (auto simp: map_eq_Cons_conv)
  then show ?thesis using sp unfolding sleep_letters by auto
qed

subsection \<open>The outcomes of a line\<close>

lemma parse_line_blank:
  "strip raw = [] \<or> startswith (strip raw) ''#'' \<Longrightarrow> parse_line path idx raw = Inr None"
  by (auto simp: parse_line_def Let_def)

lemma parse_line_sleep:
  assumes "begins_ci (strip raw) ''SLEEP''"
  shows "parse_line path idx raw =
     (if length (split (strip raw)) \<noteq> 2 then
        Inl (ValueError (located path idx
               (''SLEEP requires one numeric value (seconds). Got: '' @ strip raw)))
      else (case py_float (split (strip raw) ! 1) of
              None \<Rightarrow> Inl (ValueError (located path idx
                              (''Invalid SLEEP seconds: '' @ split (strip raw) ! 1)))
            | Some seconds \<Rightarrow> Inr (Some (Sleep seconds))))"
proof -
  from assms have u: "startswith (map upper (strip raw)) ''SLEEP''" by (simp only: startswith_sleep)
  then have "map upper (take (length ''SLEEP'') (strip raw)) = ''SLEEP''"
    by (simp only: startswith_def take_map)
  from sleep_kw_chars [OF this] have "strip raw \<noteq> []" "hd (strip raw) \<noteq> CHR ''#''"
    by (auto simp: hd_take)
  then have "\<not> startswith (strip raw) ''#''" by (cases "strip raw") (auto simp: startswith_def)
  with \<open>strip raw \<noteq> []\<close> u show ?thesis
    by (simp add: parse_line_def Let_def located_def split: option.splits)
qed

lemma parse_line_other:
  assumes "strip raw \<noteq> []" "\<not> startswith (strip raw) ''#''" "\<not> begins_ci (strip raw) ''SLEEP''"
  shows "parse_line path idx raw =
     (case re_match drag_line_re (strip raw) of
        None \<Rightarrow> Inl (ValueError (located path idx
                  (''Invalid line. Expected 'x1,y1 -> x2,y2[,duration]'. Got: '' @ strip raw)))
      | Some m \<Rightarrow>
          (case (m 1, m 2, m 3, m 4) of
             (Some a, Some b, Some c, Some d) \<Rightarrow>
               (case (py_int a, py_int b, py_int c, py_int d) of
                  (Some x1, Some y1, Some x2, Some y2) \<Rightarrow>
                    (case m 5 of
                       None \<Rightarrow> Inr (Some (Drag x1 y1 x2 y2 None))
                     | Some dur_str \<Rightarrow>
                         (case py_float dur_str of
                            None \<Rightarrow> Inl (ValueError ''could not convert string to float'')
                          | Some dur \<Rightarrow> Inr (Some (Drag x1 y1 x2 y2 (Some dur)))))
                | _ \<Rightarrow> Inl (ValueError ''invalid literal for int() with base 10''))
           | _ \<Rightarrow> Inl (TypeError ''int() argument must be a string'')))"
proof -
  from assms(3) have "\<not> startswith (map upper (strip raw)) ''SLEEP''" by (simp add: startswith_sleep)
  with assms(1,2) show ?thesis
    by (simp add: parse_line_def Let_def located_def split: option.splits)
qed

lemma matched_drag:
  assumes "drag_grammar line a b c d dur"
    and "map m [1, 2, 3, 4, 5] = [Some a, Some b, Some c, Some d, dur]"
  shows "(case (m 1, m 2, m 3, m 4) of
             (Some a, Some b, Some c, Some d) \<Rightarrow>
               (case (py_int a, py_int b, py_int c, py_int d) of
                  (Some x1, Some y1, Some x2, Some y2) \<Rightarrow>
                    (case m 5 of
                       None \<Rightarrow> Inr (Some (Drag x1 y1 x2 y2 None))
                     | Some dur_str \<Rightarrow>
                         (case py_float dur_str of
                            None \<Rightarrow> Inl (ValueError ''could not convert string to float'')
                          | Some dur \<Rightarrow> Inr (Some (Drag x1 y1 x2 y2 (Some dur)))))
                | _ \<Rightarrow> Inl (ValueError ''invalid literal for int() with base 10''))
           | _ \<Rightarrow> Inl (TypeError ''int() argument must be a string''))
         = Inr (Some (Drag (int_value a) (int_value b) (int_value c) (int_value d)
                  (map_option (\<lambda>r. to_float (real_value r)) dur)))"
proof -
  from assms(1) have ints: "int_lit a" "int_lit b" "int_lit c" "int_lit d"
    and r: "case dur of None \<Rightarrow> True | Some r \<Rightarrow> real_lit r"
    by (auto simp: drag_grammar_def drag_core_def split: option.splits)
  from assms(2) have m: "m 1 = Some a" "m 2 = Some b" "m 3 = Some c" "m 4 = Some d" "m 5 = dur"
    by simp_all
  show ?thesis
  proof (cases dur)
    case None
    with m ints show ?thesis by (simp add: py_int_lit)
  next
    case (Some r')
    with r have "real_lit r'" by simp
    with m ints Some show ?thesis by (simp add: py_int_lit py_float_lit)
  qed
qed

lemma begins_ci_hd:
  assumes "begins_ci line ''SLEEP''"
  shows "line \<noteq> [] \<and> (hd line = CHR ''s'' \<or> hd line = CHR ''S'')"
proof -
  have l: "map lower ''SLEEP'' = ''sleep''" by (simp add: lower_def)
  from assms have "map lower (take (length ''SLEEP'') line) = ''sleep''"
    by (simp only: begins_ci_def l)
  then obtain c cs where "take (length ''SLEEP'') line = c # cs" "lower c = CHR ''s''"
    by (auto simp: map_eq_Cons_conv)
  then show ?thesis by (cases line) (auto simp: lower_s)
qed

lemma drag_core_ends:
  assumes "drag_core s a b c d dur"
  shows "s \<noteq> [] \<and> \<not> isspace (hd s) \<and> \<not> isspace (last s) \<and> (hd s = CHR ''-'' \<or> isdigit (hd s))"
proof -
  from assms have ints: "int_lit a" "int_lit d"
    by (simp_all add: drag_core_def)
  from assms obtain w1 w2 w3 w4 w5 w6 t where
    s: "s = a @ w1 @ '','' @ w2 @ b @ w3 @ ''->'' @ w4 @ c @ w5 @ '','' @ w6 @ d @ t"
    and tl: "case dur of None \<Rightarrow> t = []
             | Some r \<Rightarrow> real_lit r \<and> (\<exists>w7 w8. list_all isspace (w7 @ w8) \<and> t = w7 @ '','' @ w8 @ r)"
    unfolding drag_core_def by blast
  from int_lit_ends [OF ints(1)] have a: "a \<noteq> []" "\<not> isspace (hd a)" by simp_all
  from ints(1) have a3: "hd a = CHR ''-'' \<or> isdigit (hd a)"
  proof (cases rule: int_lit_cases)
    case (1 ds)
    then show ?thesis by simp
  next
    case 2
    then show ?thesis using hd_in_set [of a] by (simp add: list_all_iff)
  qed
  have "isdigit (last (d @ t))"
  proof (cases dur)
    case None
    with tl int_lit_ends [OF ints(2)] show ?thesis by simp
  next
    case (Some r)
    with tl obtain w7 w8 where "real_lit r" "t = w7 @ '','' @ w8 @ r" by auto
    with real_lit_hd [of r] show ?thesis by simp
  qed
  moreover have dt: "d @ t \<noteq> []" using int_lit_ends [OF ints(2)] by simp
  moreover have "last ((a @ w1 @ '','' @ w2 @ b @ w3 @ ''->'' @ w4 @ c @ w5 @ '','' @ w6) @ (d @ t)) = last (d @ t)"
    using dt by (rule last_appendR)
  ultimately have "isdigit (last ((a @ w1 @ '','' @ w2 @ b @ w3 @ ''->'' @ w4 @ c @ w5 @ '','' @ w6) @ (d @ t)))"
    by simp
  then have "isdigit (last s)" unfolding s by simp
  with a a3 show ?thesis using digit_not_space by (auto simp: s)
qed

lemma drag_grammar_strip:
  assumes "drag_grammar line a b c d dur"
  shows "drag_core (strip line) a b c d dur"
proof -
  from assms obtain w0 s w9 where w: "list_all isspace w0" "list_all isspace w9"
    and l: "line = w0 @ s @ w9" and c: "drag_core s a b c d dur"
    by (auto simp: drag_grammar_def)
  from drag_core_ends [OF c] w have "strip (w0 @ s @ w9) = s" by (intro strip_core) simp_all
  with l c show ?thesis by simp
qed

lemma drag_grammar_unstrip:
  assumes "drag_grammar (strip raw) a b c d dur"
  shows "drag_grammar raw a b c d dur"
proof -
  from assms obtain w0 s w9 where w: "list_all isspace w0" "list_all isspace w9"
    and l: "strip raw = w0 @ s @ w9" and c: "drag_core s a b c d dur"
    by (auto simp: drag_grammar_def)
  from strip_decomp [of raw] obtain p q where
    r: "raw = p @ strip raw @ q" "list_all isspace p" "list_all isspace q" by blast
  have "drag_grammar ((p @ w0) @ s @ (w9 @ q)) a b c d dur"
    using w r(2,3) c by (intro drag_grammarI) simp_all
  moreover have "raw = (p @ w0) @ s @ (w9 @ q)" using r(1) l by simp
  ultimately show ?thesis by simp
qed

lemma drag_core_not_special:
  assumes "drag_core s a b c d dur"
  shows "s \<noteq> [] \<and> \<not> startswith s ''#'' \<and> \<not> begins_ci s ''SLEEP''"
proof -
  from drag_core_ends [OF assms] have s: "s \<noteq> []" "hd s = CHR ''-'' \<or> isdigit (hd s)" by simp_all
  have d: "\<not> isdigit CHR ''#''" "\<not> isdigit CHR ''s''" "\<not> isdigit CHR ''S''"
    by (simp_all add: isdigit_def)
  from s d have "hd s \<noteq> CHR ''#''" "hd s \<noteq> CHR ''s''" "hd s \<noteq> CHR ''S''" by auto
  then show ?thesis using s(1) begins_ci_hd [of s] by (cases s) (auto simp: startswith_def)
qed

lemma parse_line_drag:
  assumes "drag_grammar raw a b c d dur"
  shows "parse_line path idx raw =
           Inr (Some (Drag (int_value a) (int_value b) (int_value c) (int_value d)
                  (map_option (\<lambda>r. to_float (real_value r)) dur)))"
proof -
  from drag_grammar_strip [OF assms] have c: "drag_core (strip raw) a b c d dur" .
  from drag_core_match [OF c] obtain g where
    g: "re_match drag_line_re (strip raw) = Some g"
       "map g [1, 2, 3, 4, 5] = [Some a, Some b, Some c, Some d, dur]" by (elim exE conjE)
  from drag_core_not_special [OF c] have
    n: "strip raw \<noteq> []" "\<not> startswith (strip raw) ''#''" "\<not> begins_ci (strip raw) ''SLEEP''"
    by simp_all
  show ?thesis
    unfolding parse_line_other [OF n] g(1) by (simp only: option.case matched_drag [OF assms g(2)])
qed

lemma parse_line_nomatch:
  assumes "strip raw \<noteq> []" "\<not> startswith (strip raw) ''#''" "\<not> begins_ci (strip raw) ''SLEEP''"
  shows "(\<exists>a b c d dur. drag_grammar raw a b c d dur) \<or>
         parse_line path idx raw = Inl (ValueError (located path idx
                  (''Invalid line. Expected 'x1,y1 -> x2,y2[,duration]'. Got: '' @ strip raw)))"
proof (cases "re_match drag_line_re (strip raw)")
  case None
  then show ?thesis by (simp only: parse_line_other [OF assms] option.case) simp
next
  case (Some g)
  from match_drag_grammar [OF this] drag_grammar_unstrip show ?thesis by blast
qed

subsection \<open>Sleep directives\<close>

lemma split_acc_token:
  "list_all (\<lambda>c. \<not> isspace c) t \<Longrightarrow> split_acc cur (t @ r) = split_acc (cur @ t) r"
  by (induction t arbitrary: cur) simp_all

lemma split_acc_spaces:
  "list_all isspace w \<Longrightarrow> w \<noteq> [] \<Longrightarrow> cur \<noteq> [] \<Longrightarrow> split_acc cur (w @ r) = cur # split_acc [] (dropWhile isspace r)"
proof (induction w arbitrary: cur)
  case Nil
  then show ?case by simp
next
  case (Cons c w)
  have skip: "split_acc [] (u @ r) = split_acc [] (dropWhile isspace r)" if "list_all isspace u" for u
    using that
  proof (induction u)
    case Nil
    show ?case by (induction r) simp_all
  next
    case (Cons x u)
    then show ?case by simp
  qed
  from Cons.prems show ?case using skip [of w] by simp
qed

lemma split_two:
  assumes "list_all (\<lambda>c. \<not> isspace c) k" "k \<noteq> []" "list_all isspace w" "w \<noteq> []"
    "list_all (\<lambda>c. \<not> isspace c) t" "t \<noteq> []"
  shows "split (k @ w @ t) = [k, t]"
proof -
  have "split (k @ w @ t) = split_acc k (w @ t)"
    using split_acc_token [OF assms(1), of "[]" "w @ t"] by (simp add: split_def)
  also have "\<dots> = k # split_acc [] (dropWhile isspace t)"
    using assms(2,3,4) by (rule split_acc_spaces [rotated 2])
  also have "dropWhile isspace t = t" using assms(5,6) by (cases t) simp_all
  also have "split_acc [] t = split_acc t []"
    using split_acc_token [OF assms(5), of "[]" "[]"] by simp
  also have "\<dots> = [t]" using assms(6) by simp
  finally show ?thesis .
qed

text \<open>C9: a line made of the keyword \<^verbatim>\<open>SLEEP\<close> in any case, white space and one token
  that \<^verbatim>\<open>float\<close> accepts, with any white space around, parses to the Sleep step that
  carries the value of \<^verbatim>\<open>float\<close> on the token.  \<^verbatim>\<open>float\<close> accepts \<^verbatim>\<open>-5\<close>,
  \<^verbatim>\<open>1e3\<close>, \<^verbatim>\<open>inf\<close> and \<^verbatim>\<open>nan\<close>, and \<^verbatim>\<open>SLEEP -5\<close> parses to a sleep of
  \<open>-5\<close> seconds.\<close>

theorem sleep_accepts_any_float:
  "(\<forall>w0 kw w t w2 v.
      list_all isspace w0 \<and> map upper kw = ''SLEEP'' \<and> list_all isspace w \<and> w \<noteq> [] \<and>
      list_all (\<lambda>c. \<not> isspace c) t \<and> t \<noteq> [] \<and> list_all isspace w2 \<and> py_float t = Some v
      \<longrightarrow> parse_line path idx (w0 @ kw @ w @ t @ w2) = Inr (Some (Sleep v)))
   \<and> py_float ''-5'' = Some (Fin (- 5)) \<and> py_float ''1e3'' = Some (Fin 1000)
   \<and> py_float ''inf'' = Some PInf \<and> py_float ''nan'' = Some NaN
   \<and> parse_line path idx ''SLEEP -5'' = Inr (Some (Sleep (Fin (- 5))))"
proof -
  have gen: "parse_line path idx (w0 @ kw @ w @ t @ w2) = Inr (Some (Sleep v))"
    if h: "list_all isspace w0" "map upper kw = ''SLEEP''" "list_all isspace w" "w \<noteq> []"
      "list_all (\<lambda>c. \<not> isspace c) t" "t \<noteq> []" "list_all isspace w2" "py_float t = Some v"
    for w0 kw w t w2 v
  proof -
    from sleep_kw_chars [OF h(2)] have k: "length kw = 5" "list_all (\<lambda>c. \<not> isspace c) kw" by simp_all
    then have kne: "kw \<noteq> []" by auto
    have "\<not> isspace (hd kw)" using k(2) kne hd_in_set [of kw] by (simp add: list_all_iff)
    moreover have "\<not> isspace (last t)" using h(5,6) last_in_set [of t] by (simp add: list_all_iff)
    ultimately have "strip (w0 @ (kw @ w @ t) @ w2) = kw @ w @ t"
      using h(1,6,7) kne by (intro strip_core) simp_all
    then have s: "strip (w0 @ kw @ w @ t @ w2) = kw @ w @ t" by simp
    have "startswith (map upper (kw @ w @ t)) ''SLEEP''"
      using h(2) k(1) by (simp add: startswith_def)
    then have b: "begins_ci (strip (w0 @ kw @ w @ t @ w2)) ''SLEEP''"
      by (simp only: s startswith_sleep)
    have sp: "split (kw @ w @ t) = [kw, t]" using k(2) kne h(3,4,5,6) by (rule split_two)
    show ?thesis unfolding parse_line_sleep [OF b] s sp using h(8) by simp
  qed
  have f: "py_float ''-5'' = Some (Fin (- 5))" "py_float ''1e3'' = Some (Fin 1000)"
    "py_float ''inf'' = Some PInf" "py_float ''nan'' = Some NaN"
    by (simp_all add: py_defs)
  have "parse_line path idx ([] @ ''SLEEP'' @ '' '' @ ''-5'' @ []) = Inr (Some (Sleep (Fin (- 5))))"
    using f(1) by (intro gen) (simp_all add: upper_def isspace_def)
  then have "parse_line path idx ''SLEEP -5'' = Inr (Some (Sleep (Fin (- 5))))" by simp
  moreover have "\<forall>w0 kw w t w2 v.
      list_all isspace w0 \<and> map upper kw = ''SLEEP'' \<and> list_all isspace w \<and> w \<noteq> [] \<and>
      list_all (\<lambda>c. \<not> isspace c) t \<and> t \<noteq> [] \<and> list_all isspace w2 \<and> py_float t = Some v
      \<longrightarrow> parse_line path idx (w0 @ kw @ w @ t @ w2) = Inr (Some (Sleep v))"
    using gen by (intro allI impI) (elim conjE)
  ultimately show ?thesis using f by (intro conjI)
qed

theorem sleep_accepts_any_float_witness:
  "list_all isspace ''  '' \<and> map upper ''sLeeP'' = ''SLEEP'' \<and> list_all isspace [CHR 0x09] \<and>
   [CHR 0x09] \<noteq> [] \<and> list_all (\<lambda>c. \<not> isspace c) ''+2.5E1'' \<and> ''+2.5E1'' \<noteq> [] \<and>
   list_all isspace ''\<newline>'' \<and> py_float ''+2.5E1'' = Some (Fin 25) \<and>
   parse_line ''motions.txt'' 3 (''  '' @ ''sLeeP'' @ [CHR 0x09] @ ''+2.5E1'' @ ''\<newline>'') = Inr (Some (Sleep (Fin 25)))"
proof -
  have h: "list_all isspace ''  '' \<and> map upper ''sLeeP'' = ''SLEEP'' \<and> list_all isspace [CHR 0x09] \<and>
   [CHR 0x09] \<noteq> [] \<and> list_all (\<lambda>c. \<not> isspace c) ''+2.5E1'' \<and> ''+2.5E1'' \<noteq> [] \<and>
   list_all isspace ''\<newline>'' \<and> py_float ''+2.5E1'' = Some (Fin 25)"
    by (simp add: py_defs)
  note g = sleep_accepts_any_float [of "''motions.txt''" 3, THEN conjunct1, rule_format,
      of "''  ''" "''sLeeP''" "[CHR 0x09]" "''+2.5E1''" "''\<newline>''" "Fin 25"]
  from h g show ?thesis by simp
qed



subsection \<open>Durations\<close>

lemma to_float_nonneg': "0 \<le> q \<Longrightarrow> nonneg_real (to_float q) \<or> to_float q = PInf"
  using to_float_nonneg [of q] by auto

lemma parse_line_result:
  "parse_line path idx raw = Inr None
   \<or> (\<exists>v. parse_line path idx raw = Inr (Some (Sleep v)))
   \<or> (\<exists>a b c d dur. drag_grammar raw a b c d dur \<and>
        parse_line path idx raw = Inr (Some (Drag (int_value a) (int_value b) (int_value c) (int_value d)
                  (map_option (\<lambda>r. to_float (real_value r)) dur))))
   \<or> parse_line path idx raw = Inl (ValueError (located path idx
               (''SLEEP requires one numeric value (seconds). Got: '' @ strip raw)))
   \<or> parse_line path idx raw = Inl (ValueError (located path idx
               (''Invalid SLEEP seconds: '' @ split (strip raw) ! 1)))
   \<or> parse_line path idx raw = Inl (ValueError (located path idx
               (''Invalid line. Expected 'x1,y1 -> x2,y2[,duration]'. Got: '' @ strip raw)))"
proof (cases "strip raw = [] \<or> startswith (strip raw) ''#''")
  case True
  then show ?thesis by (simp add: parse_line_blank)
next
  case False
  then have ne: "strip raw \<noteq> []" "\<not> startswith (strip raw) ''#''" by simp_all
  show ?thesis
  proof (cases "begins_ci (strip raw) ''SLEEP''")
    case True
    show ?thesis unfolding parse_line_sleep [OF True]
      by (cases "py_float (split (strip raw) ! 1)") simp_all
  next
    case False
    from parse_line_nomatch [OF ne False, of path idx] show ?thesis
    proof
      assume "\<exists>a b c d dur. drag_grammar raw a b c d dur"
      then obtain a b c d dur where g: "drag_grammar raw a b c d dur" by (elim exE)
      from g parse_line_drag [OF g, of path idx] show ?thesis by blast
    next
      assume "parse_line path idx raw = Inl (ValueError (located path idx
               (''Invalid line. Expected 'x1,y1 -> x2,y2[,duration]'. Got: '' @ strip raw)))"
      then show ?thesis by simp
    qed
  qed
qed

lemma parse_line_dur:
  assumes "parse_line path idx raw = Inr (Some (Drag x1 y1 x2 y2 (Some dv)))"
  shows "nonneg_real dv \<or> dv = PInf"
proof -
  from parse_line_result [of path idx raw] assms obtain a b c d dur where
    "Drag x1 y1 x2 y2 (Some dv) = Drag (int_value a) (int_value b) (int_value c) (int_value d)
                  (map_option (\<lambda>r. to_float (real_value r)) dur)"
    by auto
  then obtain r where "dv = to_float (real_value r)" by (cases dur) auto
  then show ?thesis using to_float_nonneg' [OF real_value_nonneg [of r]] by simp
qed

lemma parse_lines_dur:
  assumes "parse_lines path idx acc raws = Inr steps"
    and "\<forall>x1 y1 x2 y2 dv. Drag x1 y1 x2 y2 (Some dv) \<in> set acc \<longrightarrow> nonneg_real dv \<or> dv = PInf"
  shows "\<forall>x1 y1 x2 y2 dv. Drag x1 y1 x2 y2 (Some dv) \<in> set steps \<longrightarrow> nonneg_real dv \<or> dv = PInf"
  using assms
proof (induction raws arbitrary: idx acc)
  case Nil
  then show ?case by simp
next
  case (Cons raw raws)
  show ?case
  proof (cases "parse_line path idx raw")
    case (Inl e)
    with Cons.prems(1) show ?thesis by simp
  next
    case (Inr r)
    show ?thesis
    proof (cases r)
      case None
      with Inr Cons.prems have "parse_lines path (idx + 1) acc raws = Inr steps" by simp
      from Cons.IH [OF this Cons.prems(2)] show ?thesis .
    next
      case (Some st)
      with Inr Cons.prems have p: "parse_lines path (idx + 1) (acc @ [st]) raws = Inr steps" by simp
      have "\<forall>x1 y1 x2 y2 dv. Drag x1 y1 x2 y2 (Some dv) \<in> set (acc @ [st]) \<longrightarrow> nonneg_real dv \<or> dv = PInf"
        using Cons.prems(2) parse_line_dur [of path idx raw] Inr Some by auto
      from Cons.IH [OF p this] show ?thesis .
    qed
  qed
qed

lemma file_lines_acc_plain:
  "list_all (\<lambda>c. c \<noteq> CHR 0x0A \<and> c \<noteq> CHR 0x0D) s
   \<Longrightarrow> file_lines_acc cur s = (if cur @ s = [] then [] else [cur @ s])"
  by (induction s arbitrary: cur) simp_all

lemma nat_of_digits_nines: "nat_of_digits (replicate n CHR ''9'') = 10 ^ n - 1"
proof -
  have "foldl (\<lambda>acc c. 10 * acc + digit_val c) a (replicate n CHR ''9'') = (a + 1) * 10 ^ n - 1" for a
  proof (induction n arbitrary: a)
    case 0
    show ?case by simp
  next
    case (Suc n)
    have "digit_val CHR ''9'' = 9" by (simp add: digit_val_def)
    then show ?case using Suc [of "10 * a + 9"] by (simp add: algebra_simps)
  qed
  from this [of 0] show ?thesis by (simp add: nat_of_digits_def)
qed

lemma nines_real_lit: "0 < n \<Longrightarrow> real_lit (replicate n CHR ''9'')"
  by (rule real_lit_nodot) (simp_all add: list_all_iff isdigit_def)

lemma nines_value: "real_value (replicate n CHR ''9'') = of_nat (10 ^ n - 1)"
  by (subst real_value_nodot) (simp_all add: list_all_iff isdigit_def nat_of_digits_nines)

lemma huge_duration_line:
  "parse_line path idx (''1,2 -> 3,4,'' @ replicate 310 CHR ''9'') = Inr (Some (Drag 1 2 3 4 (Some PInf)))"
proof -
  have il: "int_lit ''1''" "int_lit ''2''" "int_lit ''3''" "int_lit ''4''"
    by (simp_all add: int_lit_def isdigit_def)
  have iv: "int_value ''1'' = 1" "int_value ''2'' = 2" "int_value ''3'' = 3" "int_value ''4'' = 4"
    by (simp_all add: int_value_def nat_of_digits_def digit_val_def)
  have rl: "real_lit (replicate 310 CHR ''9'')" by (rule nines_real_lit) simp
  have "\<exists>w7 w8. list_all isspace (w7 @ w8) \<and>
          [] @ '','' @ [] @ replicate 310 CHR ''9'' = w7 @ '','' @ w8 @ replicate 310 CHR ''9''"
    by (rule_tac exI [of _ "[]"], rule_tac exI [of _ "[]"]) simp
  with rl have "case Some (replicate 310 CHR ''9'') of None \<Rightarrow> [] @ '','' @ [] @ replicate 310 CHR ''9'' = []
        | Some r \<Rightarrow> real_lit r \<and> (\<exists>w7 w8. list_all isspace (w7 @ w8) \<and>
                      [] @ '','' @ [] @ replicate 310 CHR ''9'' = w7 @ '','' @ w8 @ r)"
    by (simp only: option.case)
  then have "drag_core (''1'' @ [] @ CHR '','' # [] @ ''2'' @ '' '' @ CHR ''-'' # CHR ''>'' # '' '' @ ''3'' @ [] @
                CHR '','' # [] @ ''4'' @ ([] @ '','' @ [] @ replicate 310 CHR ''9''))
               ''1'' ''2'' ''3'' ''4'' (Some (replicate 310 CHR ''9''))"
    using il by (intro drag_coreI) (simp_all add: isspace_def)
  then have "drag_grammar ([] @ (''1'' @ [] @ CHR '','' # [] @ ''2'' @ '' '' @ CHR ''-'' # CHR ''>'' # '' '' @ ''3'' @ [] @
                CHR '','' # [] @ ''4'' @ ([] @ '','' @ [] @ replicate 310 CHR ''9'')) @ [])
               ''1'' ''2'' ''3'' ''4'' (Some (replicate 310 CHR ''9''))"
    by (intro drag_grammarI) simp_all
  then have g: "drag_grammar (''1,2 -> 3,4,'' @ replicate 310 CHR ''9'')
               ''1'' ''2'' ''3'' ''4'' (Some (replicate 310 CHR ''9''))" by simp
  have "to_float (real_value (replicate 310 CHR ''9'')) = PInf"
    unfolding nines_value by (simp add: to_float_def)
  with parse_line_drag [OF g, of path idx] iv show ?thesis by simp
qed

text \<open>C8, as amended: the coordinates of a Drag step are integers (by the type of the step),
  and the duration of every Drag step of a successfully parsed file, when present, is a
  non-negative real number or, when the literal is too large for a float, positive
  infinity.\<close>

theorem parsed_durations:
  assumes "parse_file path content = Inr steps" and "Drag x1 y1 x2 y2 (Some dv) \<in> set steps"
  shows "nonneg_real dv \<or> dv = PInf"
  using parse_lines_dur [of path 1 "[]" "file_lines content" steps] assms
  by (simp add: parse_file_def)

theorem parsed_durations_witness:
  "parse_file ''motions.txt'' ''1,2 -> 3,4,.5\<newline>7,8 -> 9,10'' =
     Inr [Drag 1 2 3 4 (Some (Fin (1 / 2))), Drag 7 8 9 10 None]
   \<and> Drag 1 2 3 4 (Some (Fin (1 / 2))) \<in> set [Drag 1 2 3 4 (Some (Fin (1 / 2))), Drag 7 8 9 10 None]
   \<and> (nonneg_real (Fin (1 / 2)) \<or> Fin (1 / 2) = PInf)"
proof -
  have l: "parse_line ''motions.txt'' 1 ''1,2 -> 3,4,.5\<newline>'' = Inr (Some (Drag 1 2 3 4 (Some (Fin (1 / 2)))))"
    "parse_line ''motions.txt'' 2 ''7,8 -> 9,10'' = Inr (Some (Drag 7 8 9 10 None))"
    by (simp_all add: py_defs)
  have p: "parse_file ''motions.txt'' ''1,2 -> 3,4,.5\<newline>7,8 -> 9,10'' =
     Inr [Drag 1 2 3 4 (Some (Fin (1 / 2))), Drag 7 8 9 10 None]"
    using l by (simp add: parse_file_def file_lines_def numeral_2_eq_2)
  from parsed_durations [OF p, of 1 2 3 4 "Fin (1 / 2)"] p show ?thesis by simp
qed

theorem parsed_durations_counterexample:
  "parse_file ''motions.txt'' (''1,2 -> 3,4,'' @ replicate 310 CHR ''9'') = Inr [Drag 1 2 3 4 (Some PInf)]
   \<and> \<not> nonneg_real PInf"
proof -
  have "file_lines_acc [] (''1,2 -> 3,4,'' @ replicate 310 CHR ''9'') =
      (if [] @ (''1,2 -> 3,4,'' @ replicate 310 CHR ''9'') = [] then []
       else [[] @ (''1,2 -> 3,4,'' @ replicate 310 CHR ''9'')])"
    by (rule file_lines_acc_plain) (simp add: list_all_iff)
  then have "file_lines (''1,2 -> 3,4,'' @ replicate 310 CHR ''9'') = [''1,2 -> 3,4,'' @ replicate 310 CHR ''9'']"
    by (simp add: file_lines_def)
  then show ?thesis using huge_duration_line [of "''motions.txt''" 1] by (simp add: parse_file_def)
qed

subsection \<open>Errors and drag lines\<close>

lemma parse_lines_Inl:
  "parse_lines path idx acc raws = Inl e \<longleftrightarrow>
     (\<exists>k<length raws. (\<forall>j<k. \<exists>r. parse_line path (idx + j) (raws ! j) = Inr r)
                       \<and> parse_line path (idx + k) (raws ! k) = Inl e)"
proof (induction raws arbitrary: idx acc)
  case Nil
  show ?case by simp
next
  case (Cons raw raws)
  show ?case
  proof (cases "parse_line path idx raw")
    case (Inl e')
    then show ?thesis by (simp add: Ex_less_Suc2 All_less_Suc2)
  next
    case (Inr r)
    show ?thesis
    proof (cases r)
      case None
      with Inr Cons.IH [of "idx + 1" acc] show ?thesis
        by (simp add: Ex_less_Suc2 All_less_Suc2)
    next
      case (Some st)
      with Inr Cons.IH [of "idx + 1" "acc @ [st]"] show ?thesis
        by (simp add: Ex_less_Suc2 All_less_Suc2)
    qed
  qed
qed

lemma parse_line_error:
  assumes "parse_line path idx raw = Inl e"
  shows "\<exists>reason. e = ValueError (located path idx reason) \<and>
           (reason = ''SLEEP requires one numeric value (seconds). Got: '' @ strip raw \<or>
            reason = ''Invalid SLEEP seconds: '' @ split (strip raw) ! 1 \<or>
            reason = ''Invalid line. Expected 'x1,y1 -> x2,y2[,duration]'. Got: '' @ strip raw)"
  using parse_line_result [of path idx raw] assms by auto

lemma file_lines_m:
  "file_lines ''1,2 -> 3,4\<newline>  SLEEP abc \<newline>5,6 -> 7,8'' =
     [''1,2 -> 3,4\<newline>'', ''  SLEEP abc \<newline>'', ''5,6 -> 7,8'']"
  "file_lines ''# path\<newline>\<newline>  1,2 - 3,4 \<newline>SLEEP x'' =
     [''# path\<newline>'', ''\<newline>'', ''  1,2 - 3,4 \<newline>'', ''SLEEP x'']"
  by (simp_all add: file_lines_def)

text \<open>C4, as amended: parsing fails exactly when some line fails, with the error of the
  first such line and no steps: every line before it has parsed.  The error is a
  \<^verbatim>\<open>ValueError\<close> whose text is the path, the 1-based number of the line and one of
  three reasons; the reason quotes the line stripped of its surrounding white space, or, for
  \<^verbatim>\<open>Invalid SLEEP seconds\<close>, the second token of the line only.\<close>

theorem parse_error_report:
  "parse_file path content = Inl e \<longleftrightarrow>
     (\<exists>k<length (file_lines content).
        (\<forall>j<k. \<exists>r. parse_line path (Suc j) (file_lines content ! j) = Inr r) \<and>
        parse_line path (Suc k) (file_lines content ! k) = Inl e \<and>
        (\<exists>reason. e = ValueError (located path (Suc k) reason) \<and>
           (reason = ''SLEEP requires one numeric value (seconds). Got: '' @ strip (file_lines content ! k) \<or>
            reason = ''Invalid SLEEP seconds: '' @ split (strip (file_lines content ! k)) ! 1 \<or>
            reason = ''Invalid line. Expected 'x1,y1 -> x2,y2[,duration]'. Got: ''
                       @ strip (file_lines content ! k))))"
proof -
  have "parse_file path content = Inl e \<longleftrightarrow>
     (\<exists>k<length (file_lines content).
        (\<forall>j<k. \<exists>r. parse_line path (Suc j) (file_lines content ! j) = Inr r) \<and>
        parse_line path (Suc k) (file_lines content ! k) = Inl e)"
    by (simp add: parse_file_def parse_lines_Inl)
  also have "\<dots> \<longleftrightarrow>
     (\<exists>k<length (file_lines content).
        (\<forall>j<k. \<exists>r. parse_line path (Suc j) (file_lines content ! j) = Inr r) \<and>
        parse_line path (Suc k) (file_lines content ! k) = Inl e \<and>
        (\<exists>reason. e = ValueError (located path (Suc k) reason) \<and>
           (reason = ''SLEEP requires one numeric value (seconds). Got: '' @ strip (file_lines content ! k) \<or>
            reason = ''Invalid SLEEP seconds: '' @ split (strip (file_lines content ! k)) ! 1 \<or>
            reason = ''Invalid line. Expected 'x1,y1 -> x2,y2[,duration]'. Got: ''
                       @ strip (file_lines content ! k))))"
    using parse_line_error by blast
  finally show ?thesis .
qed

theorem parse_error_report_witness:
  "parse_file ''m'' ''# path\<newline>\<newline>  1,2 - 3,4 \<newline>SLEEP x'' =
     Inl (ValueError ''m:3: Invalid line. Expected 'x1,y1 -> x2,y2[,duration]'. Got: 1,2 - 3,4'')"
proof -
  have l: "parse_line ''m'' (Suc 0) ''# path\<newline>'' = Inr None"
    "parse_line ''m'' (Suc (Suc 0)) ''\<newline>'' = Inr None"
    by (simp_all add: parse_line_def strip_def isspace_def startswith_def)
  have s: "strip ''  1,2 - 3,4 \<newline>'' = ''1,2 - 3,4''" by (simp add: strip_def isspace_def)
  have e: "parse_line ''m'' (Suc (Suc (Suc 0))) ''  1,2 - 3,4 \<newline>'' =
     Inl (ValueError ''m:3: Invalid line. Expected 'x1,y1 -> x2,y2[,duration]'. Got: 1,2 - 3,4'')"
    by (simp add: py_defs digit_char_def)
  have loc: "ValueError ''m:3: Invalid line. Expected 'x1,y1 -> x2,y2[,duration]'. Got: 1,2 - 3,4'' =
     ValueError (located ''m'' (Suc (Suc (Suc 0)))
        (''Invalid line. Expected 'x1,y1 -> x2,y2[,duration]'. Got: '' @ ''1,2 - 3,4''))"
    by (simp add: located_def digit_char_def)
  have "\<exists>k<length (file_lines ''# path\<newline>\<newline>  1,2 - 3,4 \<newline>SLEEP x'').
        (\<forall>j<k. \<exists>r. parse_line ''m'' (Suc j) (file_lines ''# path\<newline>\<newline>  1,2 - 3,4 \<newline>SLEEP x'' ! j) = Inr r) \<and>
        parse_line ''m'' (Suc k) (file_lines ''# path\<newline>\<newline>  1,2 - 3,4 \<newline>SLEEP x'' ! k) =
          Inl (ValueError ''m:3: Invalid line. Expected 'x1,y1 -> x2,y2[,duration]'. Got: 1,2 - 3,4'') \<and>
        (\<exists>reason. ValueError ''m:3: Invalid line. Expected 'x1,y1 -> x2,y2[,duration]'. Got: 1,2 - 3,4''
             = ValueError (located ''m'' (Suc k) reason) \<and>
           (reason = ''SLEEP requires one numeric value (seconds). Got: ''
                       @ strip (file_lines ''# path\<newline>\<newline>  1,2 - 3,4 \<newline>SLEEP x'' ! k) \<or>
            reason = ''Invalid SLEEP seconds: ''
                       @ split (strip (file_lines ''# path\<newline>\<newline>  1,2 - 3,4 \<newline>SLEEP x'' ! k)) ! 1 \<or>
            reason = ''Invalid line. Expected 'x1,y1 -> x2,y2[,duration]'. Got: ''
                       @ strip (file_lines ''# path\<newline>\<newline>  1,2 - 3,4 \<newline>SLEEP x'' ! k)))"
    unfolding file_lines_m
  proof (rule exI [of _ 2], intro conjI)
    show "2 < length [''# path\<newline>'', ''\<newline>'', ''  1,2 - 3,4 \<newline>'', ''SLEEP x'']" by simp
    show "\<forall>j<2. \<exists>r. parse_line ''m'' (Suc j)
             ([''# path\<newline>'', ''\<newline>'', ''  1,2 - 3,4 \<newline>'', ''SLEEP x''] ! j) = Inr r"
      using l by (simp add: numeral_2_eq_2 All_less_Suc2)
    show "parse_line ''m'' (Suc 2) ([''# path\<newline>'', ''\<newline>'', ''  1,2 - 3,4 \<newline>'', ''SLEEP x''] ! 2) =
          Inl (ValueError ''m:3: Invalid line. Expected 'x1,y1 -> x2,y2[,duration]'. Got: 1,2 - 3,4'')"
      using e by (simp add: numeral_2_eq_2)
    show "\<exists>reason. ValueError ''m:3: Invalid line. Expected 'x1,y1 -> x2,y2[,duration]'. Got: 1,2 - 3,4''
             = ValueError (located ''m'' (Suc 2) reason) \<and>
           (reason = ''SLEEP requires one numeric value (seconds). Got: ''
                       @ strip ([''# path\<newline>'', ''\<newline>'', ''  1,2 - 3,4 \<newline>'', ''SLEEP x''] ! 2) \<or>
            reason = ''Invalid SLEEP seconds: ''
                       @ split (strip ([''# path\<newline>'', ''\<newline>'', ''  1,2 - 3,4 \<newline>'', ''SLEEP x''] ! 2)) ! 1 \<or>
            reason = ''Invalid line. Expected 'x1,y1 -> x2,y2[,duration]'. Got: ''
                       @ strip ([''# path\<newline>'', ''\<newline>'', ''  1,2 - 3,4 \<newline>'', ''SLEEP x''] ! 2))"
      by (rule exI [of _ "''Invalid line. Expected 'x1,y1 -> x2,y2[,duration]'. Got: '' @ ''1,2 - 3,4''"])
         (simp add: numeral_2_eq_2 s located_def digit_char_def)
  qed
  then show ?thesis by (simp only: parse_error_report [symmetric])
qed

theorem parse_error_report_counterexample:
  "parse_file ''m'' ''1,2 -> 3,4\<newline>  SLEEP abc \<newline>5,6 -> 7,8'' = Inl (ValueError ''m:2: Invalid SLEEP seconds: abc'')
   \<and> file_lines ''1,2 -> 3,4\<newline>  SLEEP abc \<newline>5,6 -> 7,8'' ! 1 = ''  SLEEP abc \<newline>''
   \<and> \<not> sublist ''SLEEP abc'' ''m:2: Invalid SLEEP seconds: abc''
   \<and> parse_file ''m'' ''  1,2 - 3,4'' =
       Inl (ValueError ''m:1: Invalid line. Expected 'x1,y1 -> x2,y2[,duration]'. Got: 1,2 - 3,4'')
   \<and> file_lines ''  1,2 - 3,4'' ! 0 = ''  1,2 - 3,4''
   \<and> \<not> sublist ''  1,2 - 3,4'' ''m:1: Invalid line. Expected 'x1,y1 -> x2,y2[,duration]'. Got: 1,2 - 3,4''"
proof -
  have l: "parse_line ''m'' 1 ''1,2 -> 3,4\<newline>'' = Inr (Some (Drag 1 2 3 4 None))"
    "parse_line ''m'' 2 ''  SLEEP abc \<newline>'' = Inl (ValueError ''m:2: Invalid SLEEP seconds: abc'')"
    "parse_line ''m'' 1 ''  1,2 - 3,4'' =
       Inl (ValueError ''m:1: Invalid line. Expected 'x1,y1 -> x2,y2[,duration]'. Got: 1,2 - 3,4'')"
    by (simp_all add: py_defs digit_char_def)
  have f: "file_lines ''  1,2 - 3,4'' = [''  1,2 - 3,4'']" by (simp add: file_lines_def)
  have p: "parse_file ''m'' ''1,2 -> 3,4\<newline>  SLEEP abc \<newline>5,6 -> 7,8'' = Inl (ValueError ''m:2: Invalid SLEEP seconds: abc'')"
    "parse_file ''m'' ''  1,2 - 3,4'' =
       Inl (ValueError ''m:1: Invalid line. Expected 'x1,y1 -> x2,y2[,duration]'. Got: 1,2 - 3,4'')"
    using l by (simp_all add: parse_file_def file_lines_m f numeral_2_eq_2)
  have n: "\<not> sublist ''SLEEP abc'' ''m:2: Invalid SLEEP seconds: abc''"
    "\<not> sublist ''  1,2 - 3,4'' ''m:1: Invalid line. Expected 'x1,y1 -> x2,y2[,duration]'. Got: 1,2 - 3,4''"
    by (simp_all add: sublist_Cons_right)
  show ?thesis using p n by (simp add: file_lines_m f)
qed

lemma no_grammar:
  assumes "re_match drag_line_re (strip raw) = None"
  shows "\<not> drag_grammar raw a b c d dur"
proof
  assume "drag_grammar raw a b c d dur"
  from drag_core_match [OF drag_grammar_strip [OF this]] assms show False by simp
qed

text \<open>C5: a line of the drag grammar parses to the Drag step of the values of its four
  integer literals and of its duration literal, and to a Drag step without duration when the
  line has none.  A line that is not blank, not a comment, does not begin with
  \<^verbatim>\<open>SLEEP\<close> and is not of the drag grammar fails with the reason
  \<^verbatim>\<open>Invalid line. Expected 'x1,y1 -> x2,y2[,duration]'\<close>, the line number and the
  stripped line.\<close>

theorem drag_line_parses:
  "(drag_grammar raw a b c d dur \<longrightarrow>
      parse_line path idx raw =
        Inr (Some (Drag (int_value a) (int_value b) (int_value c) (int_value d)
                     (map_option (\<lambda>r. to_float (real_value r)) dur))))
   \<and> (strip raw \<noteq> [] \<and> \<not> startswith (strip raw) ''#'' \<and> \<not> begins_ci (strip raw) ''SLEEP'' \<and>
      (\<forall>a b c d dur. \<not> drag_grammar raw a b c d dur) \<longrightarrow>
        parse_line path idx raw =
          Inl (ValueError (located path idx
                 (''Invalid line. Expected 'x1,y1 -> x2,y2[,duration]'. Got: '' @ strip raw))))"
proof (intro conjI impI)
  assume "drag_grammar raw a b c d dur"
  then show "parse_line path idx raw =
        Inr (Some (Drag (int_value a) (int_value b) (int_value c) (int_value d)
                     (map_option (\<lambda>r. to_float (real_value r)) dur)))"
    by (rule parse_line_drag)
next
  assume h: "strip raw \<noteq> [] \<and> \<not> startswith (strip raw) ''#'' \<and> \<not> begins_ci (strip raw) ''SLEEP'' \<and>
      (\<forall>a b c d dur. \<not> drag_grammar raw a b c d dur)"
  then have n: "strip raw \<noteq> []" "\<not> startswith (strip raw) ''#''" "\<not> begins_ci (strip raw) ''SLEEP''"
    by simp_all
  from parse_line_nomatch [OF n, of path idx] h
  show "parse_line path idx raw =
          Inl (ValueError (located path idx
                 (''Invalid line. Expected 'x1,y1 -> x2,y2[,duration]'. Got: '' @ strip raw)))"
    by blast
qed

theorem drag_line_parses_witness:
  "drag_grammar '' -12 , 7->30,-4 , .5\<newline>'' ''-12'' ''7'' ''30'' ''-4'' (Some ''.5'')
   \<and> parse_line ''m'' 3 '' -12 , 7->30,-4 , .5\<newline>'' = Inr (Some (Drag (- 12) 7 30 (- 4) (Some (Fin (1 / 2)))))
   \<and> drag_grammar ''0,0 -> 10,10'' ''0'' ''0'' ''10'' ''10'' None
   \<and> parse_line ''m'' 3 ''0,0 -> 10,10'' = Inr (Some (Drag 0 0 10 10 None))
   \<and> strip ''1,2 -> 3,4,5,6'' \<noteq> [] \<and> \<not> startswith (strip ''1,2 -> 3,4,5,6'') ''#''
   \<and> \<not> begins_ci (strip ''1,2 -> 3,4,5,6'') ''SLEEP''
   \<and> (\<forall>a b c d dur. \<not> drag_grammar ''1,2 -> 3,4,5,6'' a b c d dur)
   \<and> parse_line ''m'' 3 ''1,2 -> 3,4,5,6'' =
       Inl (ValueError ''m:3: Invalid line. Expected 'x1,y1 -> x2,y2[,duration]'. Got: 1,2 -> 3,4,5,6'')"
proof -
  have il: "int_lit ''-12''" "int_lit ''7''" "int_lit ''30''" "int_lit ''-4''" "int_lit ''0''" "int_lit ''10''"
    by (simp_all add: int_lit_def isdigit_def)
  have rl: "real_lit ''.5''" by (simp add: real_lit_def isdigit_def)
  have "\<exists>w7 w8. list_all isspace (w7 @ w8) \<and> '' '' @ '','' @ '' '' @ ''.5'' = w7 @ '','' @ w8 @ ''.5''"
    by (rule_tac exI [of _ "'' ''"], rule_tac exI [of _ "'' ''"]) (simp add: isspace_def)
  with rl have "case Some ''.5'' of None \<Rightarrow> '' '' @ '','' @ '' '' @ ''.5'' = []
        | Some r \<Rightarrow> real_lit r \<and> (\<exists>w7 w8. list_all isspace (w7 @ w8) \<and>
                      '' '' @ '','' @ '' '' @ ''.5'' = w7 @ '','' @ w8 @ r)"
    by (simp only: option.case)
  then have "drag_core (''-12'' @ '' '' @ CHR '','' # '' '' @ ''7'' @ [] @ CHR ''-'' # CHR ''>'' # [] @ ''30'' @ [] @
                CHR '','' # [] @ ''-4'' @ ('' '' @ '','' @ '' '' @ ''.5''))
               ''-12'' ''7'' ''30'' ''-4'' (Some ''.5'')"
    using il by (intro drag_coreI) (simp_all add: isspace_def)
  then have "drag_grammar ('' '' @ (''-12'' @ '' '' @ CHR '','' # '' '' @ ''7'' @ [] @ CHR ''-'' # CHR ''>'' # [] @ ''30'' @ [] @
                CHR '','' # [] @ ''-4'' @ ('' '' @ '','' @ '' '' @ ''.5'')) @ ''\<newline>'')
               ''-12'' ''7'' ''30'' ''-4'' (Some ''.5'')"
    by (intro drag_grammarI) (simp_all add: isspace_def)
  then have g1: "drag_grammar '' -12 , 7->30,-4 , .5\<newline>'' ''-12'' ''7'' ''30'' ''-4'' (Some ''.5'')" by simp
  have "case None of None \<Rightarrow> ([]::string) = []
        | Some r \<Rightarrow> real_lit r \<and> (\<exists>w7 w8. list_all isspace (w7 @ w8) \<and> [] = w7 @ '','' @ w8 @ r)"
    by simp
  then have "drag_core (''0'' @ [] @ CHR '','' # [] @ ''0'' @ '' '' @ CHR ''-'' # CHR ''>'' # '' '' @ ''10'' @ [] @
                CHR '','' # [] @ ''10'' @ [])
               ''0'' ''0'' ''10'' ''10'' None"
    using il by (intro drag_coreI) (simp_all add: isspace_def)
  then have "drag_grammar ([] @ (''0'' @ [] @ CHR '','' # [] @ ''0'' @ '' '' @ CHR ''-'' # CHR ''>'' # '' '' @ ''10'' @ [] @
                CHR '','' # [] @ ''10'' @ []) @ [])
               ''0'' ''0'' ''10'' ''10'' None"
    by (intro drag_grammarI) simp_all
  then have g2: "drag_grammar ''0,0 -> 10,10'' ''0'' ''0'' ''10'' ''10'' None" by simp
  have v: "int_value ''-12'' = - 12" "int_value ''7'' = 7" "int_value ''30'' = 30" "int_value ''-4'' = - 4"
    "int_value ''0'' = 0" "int_value ''10'' = 10"
    "to_float (real_value ''.5'') = Fin (1 / 2)"
    by (simp_all add: int_value_def real_value_def nat_of_digits_def digit_val_def isdigit_def to_float_def)
  have s: "strip ''1,2 -> 3,4,5,6'' = ''1,2 -> 3,4,5,6''" by (simp add: strip_def isspace_def)
  have n: "\<not> startswith ''1,2 -> 3,4,5,6'' ''#''" "\<not> begins_ci ''1,2 -> 3,4,5,6'' ''SLEEP''"
    by (simp_all add: startswith_def begins_ci_def lower_def)
  have "re_match drag_line_re (strip ''1,2 -> 3,4,5,6'') = None"
    unfolding s by (simp add: py_defs)
  then have ng: "\<forall>a b c d dur. \<not> drag_grammar ''1,2 -> 3,4,5,6'' a b c d dur"
    using no_grammar by blast
  note t1 = drag_line_parses [of "'' -12 , 7->30,-4 , .5\<newline>''" "''-12''" "''7''" "''30''" "''-4''"
      "Some ''.5''" "''m''" 3, THEN conjunct1, rule_format, OF g1]
  note t2 = drag_line_parses [of "''0,0 -> 10,10''" "''0''" "''0''" "''10''" "''10''"
      None "''m''" 3, THEN conjunct1, rule_format, OF g2]
  note t3 = drag_line_parses [of "''1,2 -> 3,4,5,6''" _ _ _ _ _ "''m''" 3, THEN conjunct2, rule_format]
  have e: "parse_line ''m'' 3 ''1,2 -> 3,4,5,6'' =
       Inl (ValueError ''m:3: Invalid line. Expected 'x1,y1 -> x2,y2[,duration]'. Got: 1,2 -> 3,4,5,6'')"
    using t3 ng n by (simp add: s located_def digit_char_def)
  from g1 g2 t1 t2 ng n e show ?thesis by (simp add: v s)
qed

end
